theory Spec2Isabelle
  imports Main
begin

section \<open>The gRPC connection (packages/firestore/src/platform/node/grpc_connection.ts)\<close>

subsection \<open>Data that crosses the connection\<close>

text \<open>
  Request payloads are JavaScript objects. What reaches the wire is the set of fields with
  their values, so an object is a finite map from field names to JSON values; the object
  spread \<open>{a: x, ...r}\<close> is the map \<open>[a \<mapsto> x] ++ r\<close> and \<open>{...r, a: x}\<close> is
  \<open>r(a \<mapsto> x)\<close>.
\<close>

datatype json =
    JNull
  | JBool bool
  | JNumber int
  | JString string
  | JArray "json list"
  | JObject "(string \<times> json) list"

type_synonym request = "string \<rightharpoonup> json"

text \<open>
  Modelled from the spec: the declaration of \<open>Token\<close> (api/credentials.ts) is not among
  the sources. A token is header-injected as opaque key/value pairs: it carries a type tag
  and a \<open>Map\<close> of headers. \<open>forEach\<close> visits the entries in insertion order, so the headers
  are an association list.
\<close>

record token =
  type :: string
  headers :: "(string \<times> string) list"

text \<open>
  Modelled from the spec: the declaration of \<open>DatabaseInfo\<close> (core/database_info.ts) is not
  among the sources; these are the fields that the connection reads.
\<close>

record database_id =
  projectId :: string
  database :: string

record database_info =
  databaseId :: database_id
  appId :: string
  host :: string
  ssl :: bool

text \<open>
  The versions that \<open>X_GOOG_API_CLIENT_VALUE\<close> is built from come from the running
  process and from core/version.ts; they are parameters of the model.
\<close>

record runtime =
  node_version :: string
  SDK_VERSION :: string

definition grpcVersion :: string where
  "grpcVersion = ''__GRPC_VERSION__''"

definition X_GOOG_API_CLIENT_VALUE :: "runtime \<Rightarrow> string" where
  "X_GOOG_API_CLIENT_VALUE rt =
     ''gl-node/'' @ node_version rt @ '' fire/'' @ SDK_VERSION rt @ '' grpc/'' @ grpcVersion"

subsection \<open>Request metadata\<close>

text \<open>
  \<open>grpc.Metadata\<close> belongs to the transport library. Its \<open>set(key, value)\<close> lower-cases
  the key and replaces whatever was stored under it; the metadata is the map from
  normalised keys to values. The library's check of the characters of a key or value is
  not part of this model.
\<close>

type_synonym metadata = "string \<rightharpoonup> string"

definition toLowerCase_char :: "char \<Rightarrow> char" where
  "toLowerCase_char c =
     (case map_of (zip ''ABCDEFGHIJKLMNOPQRSTUVWXYZ'' ''abcdefghijklmnopqrstuvwxyz'') c of
        Some l \<Rightarrow> l
      | None \<Rightarrow> c)"

definition normalizeKey :: "string \<Rightarrow> string" where
  "normalizeKey key = map toLowerCase_char key"

definition metadata_set :: "string \<Rightarrow> string \<Rightarrow> metadata \<Rightarrow> metadata" where
  "metadata_set key val m = m(normalizeKey key \<mapsto> val)"

text \<open>\<open>headers.forEach((value, key) => metadata.set(key, value))\<close>\<close>

definition set_headers :: "(string \<times> string) list \<Rightarrow> metadata \<Rightarrow> metadata" where
  "set_headers hs m = fold (\<lambda>(key, val). metadata_set key val) hs m"

text \<open>
  Modelled from the spec: \<open>hardAssert\<close> (util/assert.ts) is not among the sources. A
  failed hard assertion is fatal: it raises, and nothing after it runs.
\<close>

datatype failure = AssertionFailed string

definition hardAssert :: "bool \<Rightarrow> string \<Rightarrow> failure + unit" where
  "hardAssert assertion msg = (if assertion then Inr () else Inl (AssertionFailed msg))"

definition createMetadata ::
  "runtime \<Rightarrow> string \<Rightarrow> token option \<Rightarrow> token option \<Rightarrow> string \<Rightarrow> failure + metadata"
where
  "createMetadata rt dbPath authToken appCheckToken app_id =
     (case hardAssert (case authToken of None \<Rightarrow> True | Some t \<Rightarrow> type t = ''OAuth'')
             ''If provided, token must be OAuth'' of
        Inl f \<Rightarrow> Inl f
      | Inr _ \<Rightarrow>
          (let m0 = Map.empty;
               m1 = (case authToken of Some t \<Rightarrow> set_headers (headers t) m0 | None \<Rightarrow> m0);
               m2 = (case appCheckToken of Some t \<Rightarrow> set_headers (headers t) m1 | None \<Rightarrow> m1);
               m3 = (if app_id \<noteq> [] then metadata_set ''X-Firebase-GMPID'' app_id m2 else m2);
               m4 = metadata_set ''X-Goog-Api-Client'' (X_GOOG_API_CLIENT_VALUE rt) m3;
               m5 = metadata_set ''Google-Cloud-Resource-Prefix'' dbPath m4;
               m6 = metadata_set ''x-goog-request-params'' dbPath m5
           in Inr m6))"

subsection \<open>The connection and its cached stub\<close>

datatype channel_credentials = Ssl | Insecure

record grpc_stub =
  stub_host :: string
  stub_credentials :: channel_credentials

record grpc_connection =
  databaseInfo :: database_info
  databasePath :: string
  cachedStub :: "grpc_stub option"

text \<open>The constructor.\<close>

definition GrpcConnection :: "database_info \<Rightarrow> grpc_connection" where
  "GrpcConnection info =
     \<lparr> databaseInfo = info,
       databasePath =
         ''projects/'' @ projectId (databaseId info) @ ''/databases/'' @ database (databaseId info),
       cachedStub = None \<rparr>"

definition ensureActiveStub :: "grpc_connection \<Rightarrow> grpc_stub \<times> grpc_connection" where
  "ensureActiveStub conn =
     (case cachedStub conn of
        None \<Rightarrow>
          (let creds = (if ssl (databaseInfo conn) then Ssl else Insecure);
               stub = \<lparr> stub_host = host (databaseInfo conn), stub_credentials = creds \<rparr>
           in (stub, conn\<lparr>cachedStub := Some stub\<rparr>))
      | Some stub \<Rightarrow> (stub, conn))"

text \<open>
  A call on the stub, \<open>stub[rpcName](...)\<close>: the stub it is made on, the method name, the
  request object (absent for a bidirectional stream) and the metadata.
\<close>

datatype transport_call =
    UnaryCall grpc_stub string request metadata
  | ServerStreamingCall grpc_stub string request metadata
  | BidiStreamingCall grpc_stub string metadata

subsection \<open>Unary and server-streaming calls: the synchronous part\<close>

text \<open>
  Each operation first makes sure of the stub (which may update the connection), then
  builds the metadata (which may raise), then builds the request object and calls the
  stub. The result is the connection afterwards, and either the failure raised or the
  one call issued on the stub.
\<close>

definition invokeRPC_jsonRequest :: "grpc_connection \<Rightarrow> request \<Rightarrow> request" where
  "invokeRPC_jsonRequest conn req = [''database'' \<mapsto> JString (databasePath conn)] ++ req"

definition invokeStreamingRPC_jsonRequest :: "grpc_connection \<Rightarrow> request \<Rightarrow> request" where
  "invokeStreamingRPC_jsonRequest conn req = req(''database'' \<mapsto> JString (databasePath conn))"

definition invokeRPC_issue ::
  "runtime \<Rightarrow> grpc_connection \<Rightarrow> string \<Rightarrow> string \<Rightarrow> request \<Rightarrow> token option \<Rightarrow> token option
     \<Rightarrow> grpc_connection \<times> (failure + transport_call)"
where
  "invokeRPC_issue rt conn rpcName path req authToken appCheckToken =
     (let (stub, conn') = ensureActiveStub conn in
      case createMetadata rt (databasePath conn') authToken appCheckToken
             (appId (databaseInfo conn')) of
        Inl f \<Rightarrow> (conn', Inl f)
      | Inr md \<Rightarrow> (conn', Inr (UnaryCall stub rpcName (invokeRPC_jsonRequest conn' req) md)))"

definition invokeStreamingRPC_issue ::
  "runtime \<Rightarrow> grpc_connection \<Rightarrow> string \<Rightarrow> string \<Rightarrow> request \<Rightarrow> token option \<Rightarrow> token option
     \<Rightarrow> grpc_connection \<times> (failure + transport_call)"
where
  "invokeStreamingRPC_issue rt conn rpcName path req authToken appCheckToken =
     (let (stub, conn') = ensureActiveStub conn in
      case createMetadata rt (databasePath conn') authToken appCheckToken
             (appId (databaseInfo conn')) of
        Inl f \<Rightarrow> (conn', Inl f)
      | Inr md \<Rightarrow>
          (conn', Inr (ServerStreamingCall stub rpcName
                         (invokeStreamingRPC_jsonRequest conn' req) md)))"

subsection \<open>Errors\<close>

text \<open>
  A \<open>grpc.ServiceError\<close> carries the transport status code and a message. The domain
  error is \<open>new FirestoreError(code, message)\<close>. \<open>mapCodeFromRpcCode\<close> (remote/rpc_error.ts)
  is not among the sources: it is a parameter \<open>mapCode\<close> of every operation that uses it,
  a function from transport status codes to domain codes.
\<close>

record 'rc service_error =
  code :: 'rc
  message :: string

datatype 'c firestore_error = FirestoreError 'c string

definition to_FirestoreError :: "('rc \<Rightarrow> 'c) \<Rightarrow> 'rc service_error \<Rightarrow> 'c firestore_error" where
  "to_FirestoreError mapCode grpcError = FirestoreError (mapCode (code grpcError)) (message grpcError)"

subsection \<open>invokeRPC: the callback\<close>

text \<open>
  Modelled from the spec: \<open>nodePromise\<close> (util/node_api.ts) is not among the sources. An
  operation resolves to a success value or to a domain error: an error handed to the
  node-style callback rejects the promise, otherwise the value resolves it. The transport
  either never calls back (\<open>None\<close>: the promise stays pending) or calls back with an
  optional error and a value.
\<close>

datatype ('a, 'e) promise = Pending | Resolved 'a | Rejected 'e

definition invokeRPC_callback ::
  "('rc \<Rightarrow> 'c) \<Rightarrow> 'rc service_error option \<Rightarrow> 'resp \<Rightarrow> ('resp, 'c firestore_error) promise"
where
  "invokeRPC_callback mapCode grpcError val =
     (case grpcError of
        Some e \<Rightarrow> Rejected (to_FirestoreError mapCode e)
      | None \<Rightarrow> Resolved val)"

definition invokeRPC ::
  "('rc \<Rightarrow> 'c) \<Rightarrow> (transport_call \<Rightarrow> ('rc service_error option \<times> 'resp) option) \<Rightarrow>
   runtime \<Rightarrow> grpc_connection \<Rightarrow> string \<Rightarrow> string \<Rightarrow> request \<Rightarrow> token option \<Rightarrow> token option
     \<Rightarrow> grpc_connection \<times> (failure + transport_call \<times> ('resp, 'c firestore_error) promise)"
where
  "invokeRPC mapCode transport rt conn rpcName path req authToken appCheckToken =
     (case invokeRPC_issue rt conn rpcName path req authToken appCheckToken of
        (conn', Inl f) \<Rightarrow> (conn', Inl f)
      | (conn', Inr call) \<Rightarrow>
          (conn', Inr (call,
             (case transport call of
                None \<Rightarrow> Pending
              | Some (grpcError, val) \<Rightarrow> invokeRPC_callback mapCode grpcError val))))"

subsection \<open>invokeStreamingRPC: collecting the responses\<close>

text \<open>
  The events of the server stream, in the order the transport emits them.
\<close>

datatype ('resp, 'rc) stream_event =
    StreamData 'resp
  | StreamEnd
  | StreamError "'rc service_error"

text \<open>
  Modelled from the spec: \<open>Deferred\<close> (util/promise.ts) is not among the sources; it is a
  promise together with its \<open>resolve\<close> and \<open>reject\<close>. The call resolves once: a promise
  settles once, and a later \<open>resolve\<close> or \<open>reject\<close> changes nothing.
  \<open>responseDeferred.resolve(results)\<close> fulfils the promise with the \<open>results\<close> array
  itself, not with a copy: the list the caller holds is whatever \<open>results\<close> holds.
\<close>

datatype 'e deferred = Unsettled | ResolvedWithResults | RejectedWith 'e

record ('resp, 'c) streaming_rpc =
  results :: "'resp list"
  responseDeferred :: "'c firestore_error deferred"

definition deferred_resolve :: "'e deferred \<Rightarrow> 'e deferred" where
  "deferred_resolve d = (case d of Unsettled \<Rightarrow> ResolvedWithResults | _ \<Rightarrow> d)"

definition deferred_reject :: "'e \<Rightarrow> 'e deferred \<Rightarrow> 'e deferred" where
  "deferred_reject e d = (case d of Unsettled \<Rightarrow> RejectedWith e | _ \<Rightarrow> d)"

fun streaming_on ::
  "('rc \<Rightarrow> 'c) \<Rightarrow> ('resp, 'rc) stream_event \<Rightarrow> ('resp, 'c) streaming_rpc \<Rightarrow> ('resp, 'c) streaming_rpc"
where
  "streaming_on mapCode (StreamData response) st = st\<lparr>results := results st @ [response]\<rparr>"
| "streaming_on mapCode StreamEnd st =
     st\<lparr>responseDeferred := deferred_resolve (responseDeferred st)\<rparr>"
| "streaming_on mapCode (StreamError grpcError) st =
     st\<lparr>responseDeferred :=
          deferred_reject (to_FirestoreError mapCode grpcError) (responseDeferred st)\<rparr>"

definition streaming_start :: "('resp, 'c) streaming_rpc" where
  "streaming_start = \<lparr> results = [], responseDeferred = Unsettled \<rparr>"

definition streaming_run ::
  "('rc \<Rightarrow> 'c) \<Rightarrow> ('resp, 'rc) stream_event list \<Rightarrow> ('resp, 'c) streaming_rpc \<Rightarrow> ('resp, 'c) streaming_rpc"
where
  "streaming_run mapCode evs st = fold (streaming_on mapCode) evs st"

text \<open>What the caller of \<open>invokeStreamingRPC\<close> has in hand: the state of the promise.\<close>

definition returned_promise ::
  "('resp, 'c) streaming_rpc \<Rightarrow> ('resp list, 'c firestore_error) promise"
where
  "returned_promise st =
     (case responseDeferred st of
        Unsettled \<Rightarrow> Pending
      | ResolvedWithResults \<Rightarrow> Resolved (results st)
      | RejectedWith e \<Rightarrow> Rejected e)"

definition invokeStreamingRPC ::
  "('rc \<Rightarrow> 'c) \<Rightarrow> (transport_call \<Rightarrow> ('resp, 'rc) stream_event list) \<Rightarrow>
   runtime \<Rightarrow> grpc_connection \<Rightarrow> string \<Rightarrow> string \<Rightarrow> request \<Rightarrow> token option \<Rightarrow> token option
     \<Rightarrow> grpc_connection \<times> (failure + transport_call \<times> ('resp list, 'c firestore_error) promise)"
where
  "invokeStreamingRPC mapCode transport rt conn rpcName path req authToken appCheckToken =
     (case invokeStreamingRPC_issue rt conn rpcName path req authToken appCheckToken of
        (conn', Inl f) \<Rightarrow> (conn', Inl f)
      | (conn', Inr call) \<Rightarrow>
          (conn', Inr (call,
             returned_promise (streaming_run mapCode (transport call) streaming_start))))"

subsection \<open>openStream\<close>

text \<open>
  The closure of \<open>openStream\<close> has one variable, \<open>closed\<close>. The zero-delay timer that
  delivers \<open>open\<close> runs its callback once; \<open>open_timer_pending\<close> says that it has not run.
\<close>

record grpc_stream =
  closed :: bool
  open_timer_pending :: bool

text \<open>
  Modelled from the spec: \<open>StreamBridge\<close> (remote/stream_bridge.ts) is not among the
  sources. It is the stream handed to the owner: its \<open>send\<close> and \<open>close\<close> call the \<open>sendFn\<close>
  and \<open>closeFn\<close> it was built with, and \<open>callOnOpen\<close>, \<open>callOnMessage\<close> and \<open>callOnClose\<close>
  invoke the owner's open, message and close callbacks. A callback is recorded as an
  effect, followed by what the owner does inside it: the calls it makes on the stream
  before it returns. An exception raised by one of those calls leaves the callback.
\<close>

datatype 'req owner_call =
    Send 'req
  | Close "'req owner_call list"

text \<open>
  \<open>Close onClose\<close> is a call of \<open>stream.close()\<close> by an owner whose close callback, if it
  is invoked, makes the calls \<open>onClose\<close>.
\<close>

datatype ('req, 'resp, 'c, 'x) effect =
    CallOnOpen
  | CallOnMessage 'resp
  | CallOnClose "'c firestore_error option"
  | GrpcWrite 'req
  | GrpcEnd
  | Raised 'x

type_synonym ('req, 'resp, 'c, 'x) outcome =
  "grpc_stream \<times> ('req, 'resp, 'c, 'x) effect list \<times> 'x option"

text \<open>
  \<open>grpcStream.write(msg)\<close> may throw (a message that does not conform to the proto);
  \<open>grpc_write msg = Some e\<close> says that it throws \<open>e\<close>, which \<open>sendFn\<close> rethrows.
\<close>

definition sendFn ::
  "('req \<Rightarrow> 'x option) \<Rightarrow> 'req \<Rightarrow> grpc_stream \<Rightarrow> ('req, 'resp, 'c, 'x) outcome"
where
  "sendFn grpc_write msg s =
     (if \<not> closed s then
        (case grpc_write msg of
           None \<Rightarrow> (s, [GrpcWrite msg], None)
         | Some e \<Rightarrow> (s, [], Some e))
      else (s, [], None))"

fun close_stream ::
    "('req \<Rightarrow> 'x option) \<Rightarrow> 'req owner_call list \<Rightarrow> 'c firestore_error option \<Rightarrow> grpc_stream
       \<Rightarrow> ('req, 'resp, 'c, 'x) outcome"
  and bridge_call ::
    "('req \<Rightarrow> 'x option) \<Rightarrow> 'req owner_call \<Rightarrow> grpc_stream \<Rightarrow> ('req, 'resp, 'c, 'x) outcome"
  and bridge_calls ::
    "('req \<Rightarrow> 'x option) \<Rightarrow> 'req owner_call list \<Rightarrow> grpc_stream \<Rightarrow> ('req, 'resp, 'c, 'x) outcome"
where
  "close_stream grpc_write onClose err s =
     (if \<not> closed s then
        (case bridge_calls grpc_write onClose (s\<lparr>closed := True\<rparr>) of
           (s', effs, Some e) \<Rightarrow> (s', CallOnClose err # effs, Some e)
         | (s', effs, None) \<Rightarrow> (s', CallOnClose err # effs @ [GrpcEnd], None))
      else (s, [], None))"
| "bridge_call grpc_write (Send msg) s = sendFn grpc_write msg s"
| "bridge_call grpc_write (Close onClose) s = close_stream grpc_write onClose None s"
| "bridge_calls grpc_write [] s = (s, [], None)"
| "bridge_calls grpc_write (c # cs) s =
     (case bridge_call grpc_write c s of
        (s', effs, Some e) \<Rightarrow> (s', effs, Some e)
      | (s', effs, None) \<Rightarrow>
          (case bridge_calls grpc_write cs s' of (s'', effs', x) \<Rightarrow> (s'', effs @ effs', x)))"

text \<open>
  What can happen to an open stream: the owner calls \<open>send\<close> or \<open>close\<close> on it, the
  transport emits \<open>data\<close>, \<open>end\<close> or \<open>error\<close>, or the timer runs. Each transport and timer
  event carries what the owner does inside the callback it leads to.
\<close>

datatype ('req, 'resp, 'rc) stream_input =
    Owner "'req owner_call"
  | GrpcData 'resp "'req owner_call list"
  | GrpcEnded "'req owner_call list"
  | GrpcError "'rc service_error" "'req owner_call list"
  | TimerFired "'req owner_call list"

fun handle ::
  "('req \<Rightarrow> 'x option) \<Rightarrow> ('rc \<Rightarrow> 'c) \<Rightarrow> ('req, 'resp, 'rc) stream_input \<Rightarrow> grpc_stream
     \<Rightarrow> ('req, 'resp, 'c, 'x) outcome"
where
  "handle grpc_write mapCode (Owner c) s = bridge_call grpc_write c s"
| "handle grpc_write mapCode (GrpcData msg onMessage) s =
     (if \<not> closed s then
        (case bridge_calls grpc_write onMessage s of (s', effs, x) \<Rightarrow> (s', CallOnMessage msg # effs, x))
      else (s, [], None))"
| "handle grpc_write mapCode (GrpcEnded onClose) s = close_stream grpc_write onClose None s"
| "handle grpc_write mapCode (GrpcError grpcError onClose) s =
     (if \<not> closed s then
        close_stream grpc_write onClose (Some (to_FirestoreError mapCode grpcError)) s
      else (s, [], None))"
| "handle grpc_write mapCode (TimerFired onOpen) s =
     (if open_timer_pending s then
        (case bridge_calls grpc_write onOpen (s\<lparr>open_timer_pending := False\<rparr>) of
           (s', effs, x) \<Rightarrow> (s', CallOnOpen # effs, x))
      else (s, [], None))"

text \<open>
  A run of the stream: the inputs are handled one after the other; an exception that
  leaves a handler is recorded and the next input is handled.
\<close>

fun run_stream ::
  "('req \<Rightarrow> 'x option) \<Rightarrow> ('rc \<Rightarrow> 'c) \<Rightarrow> ('req, 'resp, 'rc) stream_input list \<Rightarrow> grpc_stream
     \<Rightarrow> grpc_stream \<times> ('req, 'resp, 'c, 'x) effect list"
where
  "run_stream grpc_write mapCode [] s = (s, [])"
| "run_stream grpc_write mapCode (i # ins) s =
     (case handle grpc_write mapCode i s of
        (s', effs, x) \<Rightarrow>
          (case run_stream grpc_write mapCode ins s' of
             (s'', effs') \<Rightarrow>
               (s'', effs @ (case x of Some e \<Rightarrow> [Raised e] | None \<Rightarrow> []) @ effs')))"

definition openStream ::
  "runtime \<Rightarrow> grpc_connection \<Rightarrow> string \<Rightarrow> token option \<Rightarrow> token option
     \<Rightarrow> grpc_connection \<times> (failure + transport_call \<times> grpc_stream)"
where
  "openStream rt conn rpcName authToken appCheckToken =
     (let (stub, conn') = ensureActiveStub conn in
      case createMetadata rt (databasePath conn') authToken appCheckToken
             (appId (databaseInfo conn')) of
        Inl f \<Rightarrow> (conn', Inl f)
      | Inr md \<Rightarrow>
          (conn', Inr (BidiStreamingCall stub rpcName md,
                       \<lparr> closed = False, open_timer_pending = True \<rparr>)))"

subsection \<open>Reading a trace of effects\<close>

fun is_CallOnClose :: "('req, 'resp, 'c, 'x) effect \<Rightarrow> bool" where
  "is_CallOnClose (CallOnClose err) = True"
| "is_CallOnClose _ = False"

fun is_CallOnMessage :: "('req, 'resp, 'c, 'x) effect \<Rightarrow> bool" where
  "is_CallOnMessage (CallOnMessage msg) = True"
| "is_CallOnMessage _ = False"

fun is_GrpcWrite :: "('req, 'resp, 'c, 'x) effect \<Rightarrow> bool" where
  "is_GrpcWrite (GrpcWrite msg) = True"
| "is_GrpcWrite _ = False"

text \<open>
  The three ways in which \<open>close\<close> is invoked: \<open>closeFn\<close> (the owner's \<open>stream.close()\<close>),
  the transport's \<open>end\<close>, and the transport's \<open>error\<close>; and the terminal error each
  passes on.
\<close>

fun is_close_invocation :: "('req, 'resp, 'rc) stream_input \<Rightarrow> bool" where
  "is_close_invocation (Owner (Close onClose)) = True"
| "is_close_invocation (GrpcEnded onClose) = True"
| "is_close_invocation (GrpcError grpcError onClose) = True"
| "is_close_invocation _ = False"

fun terminal_error ::
  "('rc \<Rightarrow> 'c) \<Rightarrow> ('req, 'resp, 'rc) stream_input \<Rightarrow> 'c firestore_error option"
where
  "terminal_error mapCode (GrpcError grpcError onClose) = Some (to_FirestoreError mapCode grpcError)"
| "terminal_error mapCode _ = None"

text \<open>
  The timer runs before the transport delivers its first \<open>data\<close> event.
\<close>

fun timer_before_data :: "('req, 'resp, 'rc) stream_input list \<Rightarrow> bool" where
  "timer_before_data [] = True"
| "timer_before_data (TimerFired onOpen # ins) = True"
| "timer_before_data (GrpcData msg onMessage # ins) = False"
| "timer_before_data (i # ins) = timer_before_data ins"

text \<open>
  The effects of the close path: the notification of the owner and the teardown of the
  transport.
\<close>

fun is_closing :: "('req, 'resp, 'c, 'x) effect \<Rightarrow> bool" where
  "is_closing (CallOnClose err) = True"
| "is_closing GrpcEnd = True"
| "is_closing _ = False"

text \<open>
  No message callback comes before the first open callback of the trace.
\<close>

fun open_before_message :: "('req, 'resp, 'c, 'x) effect list \<Rightarrow> bool" where
  "open_before_message [] = True"
| "open_before_message (CallOnOpen # tr) = True"
| "open_before_message (CallOnMessage msg # tr) = False"
| "open_before_message (y # tr) = open_before_message tr"

text \<open>
  No message callback comes after a close callback.
\<close>

fun no_message_after_close :: "('req, 'resp, 'c, 'x) effect list \<Rightarrow> bool" where
  "no_message_after_close [] = True"
| "no_message_after_close (CallOnClose err # tr) = list_all (\<lambda>y. \<not> is_CallOnMessage y) tr"
| "no_message_after_close (y # tr) = no_message_after_close tr"

text \<open>The stream that \<open>openStream\<close> returned, if it returned one.\<close>

definition returned_stream ::
  "grpc_connection \<times> (failure + transport_call \<times> grpc_stream) \<Rightarrow> grpc_stream option"
where
  "returned_stream r = (case snd r of Inl f \<Rightarrow> None | Inr (call, s) \<Rightarrow> Some s)"

subsection \<open>Reading the result of an operation\<close>

text \<open>
  An operation returns the connection and either the failure it raised or the call it
  issued on the stub together with what it handed to its caller (a promise, a stream).
  The calls issued, the request object and the metadata that were sent, and the value
  handed to the caller, read off such a result.
\<close>

definition issued :: "'s \<times> (failure + transport_call \<times> 'a) \<Rightarrow> transport_call list" where
  "issued r = (case snd r of Inl f \<Rightarrow> [] | Inr (call, x) \<Rightarrow> [call])"

fun wire_request :: "transport_call \<Rightarrow> request option" where
  "wire_request (UnaryCall stub rpcName req md) = Some req"
| "wire_request (ServerStreamingCall stub rpcName req md) = Some req"
| "wire_request (BidiStreamingCall stub rpcName md) = None"

fun call_metadata :: "transport_call \<Rightarrow> metadata" where
  "call_metadata (UnaryCall stub rpcName req md) = md"
| "call_metadata (ServerStreamingCall stub rpcName req md) = md"
| "call_metadata (BidiStreamingCall stub rpcName md) = md"

definition sent_request :: "'s \<times> (failure + transport_call \<times> 'a) \<Rightarrow> request option" where
  "sent_request r = (case snd r of Inl f \<Rightarrow> None | Inr (call, x) \<Rightarrow> wire_request call)"

definition sent_metadata :: "'s \<times> (failure + transport_call \<times> 'a) \<Rightarrow> metadata option" where
  "sent_metadata r = (case snd r of Inl f \<Rightarrow> None | Inr (call, x) \<Rightarrow> Some (call_metadata call))"

definition returned :: "'s \<times> (failure + transport_call \<times> 'a) \<Rightarrow> 'a option" where
  "returned r = (case snd r of Inl f \<Rightarrow> None | Inr (call, x) \<Rightarrow> Some x)"

text \<open>\<open>metadata.get(key)\<close>: the value stored under the normalised key.\<close>

definition metadata_get :: "metadata \<Rightarrow> string \<Rightarrow> string option" where
  "metadata_get m key = m (normalizeKey key)"

text \<open>
  The value that a token's headers leave under a key once all of them have been set: the
  last entry whose key normalises to the same string.
\<close>

definition header_lookup :: "(string \<times> string) list \<Rightarrow> string \<Rightarrow> string option" where
  "header_lookup hs key =
     map_of (rev (map (\<lambda>(k, val). (normalizeKey k, val)) hs)) (normalizeKey key)"

definition token_lookup :: "token option \<Rightarrow> string \<Rightarrow> string option" where
  "token_lookup tok key = (case tok of None \<Rightarrow> None | Some t \<Rightarrow> header_lookup (headers t) key)"

text \<open>
  The keys that \<open>createMetadata\<close> sets after the headers of the tokens.
\<close>

definition later_keys :: "string \<Rightarrow> string list" where
  "later_keys app_id =
     (if app_id \<noteq> [] then [''x-firebase-gmpid''] else []) @
     [''x-goog-api-client'', ''google-cloud-resource-prefix'', ''x-goog-request-params'']"

fun is_StreamData :: "('resp, 'rc) stream_event \<Rightarrow> bool" where
  "is_StreamData (StreamData response) = True"
| "is_StreamData _ = False"

text \<open>The assertion of \<open>createMetadata\<close> on the auth token.\<close>

definition token_accepted :: "token option \<Rightarrow> bool" where
  "token_accepted authToken = (case authToken of None \<Rightarrow> True | Some t \<Rightarrow> type t = ''OAuth'')"

subsection \<open>Concrete inputs\<close>

definition example_runtime :: runtime where
  "example_runtime = \<lparr> node_version = ''18.12.0'', SDK_VERSION = ''9.8.4'' \<rparr>"

definition example_connection :: grpc_connection where
  "example_connection =
     GrpcConnection
       \<lparr> databaseId = \<lparr> projectId = ''demo'', database = ''(default)'' \<rparr>,
         appId = ''1:23:web:45'', host = ''firestore.googleapis.com'', ssl = True \<rparr>"

section \<open>The transaction runner (spec, section 4.3)\<close>

text \<open>
  Modelled from the spec: core/transaction.ts and core/transaction_runner.ts are not
  among the sources; only the integration test that drives them is. The definitions of
  this section follow the spec's description of the backend, of the transaction handle
  and of the retry policy.

  A stored document has a logical version and a payload. A document that is absent is
  read at the minimum version. Every committed write gives the document a new, larger
  version.
\<close>

record 'v document =
  version :: nat
  payload :: 'v

type_synonym ('k, 'v) backend = "'k \<rightharpoonup> 'v document"

definition current_version :: "('k, 'v) backend \<Rightarrow> 'k \<Rightarrow> nat" where
  "current_version b key = (case b key of None \<Rightarrow> 0 | Some d \<Rightarrow> version d)"

definition backend_write :: "'k \<Rightarrow> 'v \<Rightarrow> ('k, 'v) backend \<Rightarrow> ('k, 'v) backend" where
  "backend_write key v b = b(key \<mapsto> \<lparr> version = Suc (current_version b key), payload = v \<rparr>)"

text \<open>
  Modelled from the spec: the error taxonomy of section 7. An attempt fails with a
  precondition conflict (retryable), a transport failure or a programming error (both
  propagated at once). What the runner surfaces is either the terminal abort after the
  last attempt, which carries the reason of the conflict and has the code \<open>aborted\<close>,
  or the propagated error of the attempt.
\<close>

datatype 'r attempt_error =
    Precondition_Conflict 'r
  | Transport_Failure 'r
  | Programming_Error 'r

datatype 'r transaction_failure =
    Aborted_Fatal 'r
  | Propagated "'r attempt_error"

fun error_code :: "'r transaction_failure \<Rightarrow> string option" where
  "error_code (Aborted_Fatal reason) = Some ''aborted''"
| "error_code (Propagated e) = None"

text \<open>
  Modelled from the spec: the transaction handle of one attempt. It records the version
  observed for every key it read and the mutations staged so far. \<open>get\<close> of a key read
  before must observe the same version, or the attempt fails with a conflict; \<open>update\<close>
  of a key that was not read fails locally; \<open>commit\<close> applies the mutations if every
  recorded version is still the current one, and is a conflict otherwise.
\<close>

record ('k, 'v) transaction =
  readVersions :: "('k \<times> nat) list"
  mutations :: "('k \<times> 'v) list"

definition new_transaction :: "('k, 'v) transaction" where
  "new_transaction = \<lparr> readVersions = [], mutations = [] \<rparr>"

definition transaction_get ::
  "('k, 'v) backend \<Rightarrow> 'k \<Rightarrow> ('k, 'v) transaction
     \<Rightarrow> string attempt_error + 'v option \<times> ('k, 'v) transaction"
where
  "transaction_get b key txn =
     (let v = current_version b key in
      case map_of (readVersions txn) key of
        None \<Rightarrow>
          Inr (map_option payload (b key), txn\<lparr>readVersions := readVersions txn @ [(key, v)]\<rparr>)
      | Some v0 \<Rightarrow>
          if v0 = v then Inr (map_option payload (b key), txn)
          else Inl (Precondition_Conflict ''document version changed between two reads''))"

definition transaction_set :: "'k \<Rightarrow> 'v \<Rightarrow> ('k, 'v) transaction \<Rightarrow> ('k, 'v) transaction" where
  "transaction_set key v txn = txn\<lparr>mutations := mutations txn @ [(key, v)]\<rparr>"

definition transaction_update ::
  "'k \<Rightarrow> 'v \<Rightarrow> ('k, 'v) transaction \<Rightarrow> string attempt_error + ('k, 'v) transaction"
where
  "transaction_update key v txn =
     (case map_of (readVersions txn) key of
        None \<Rightarrow> Inl (Programming_Error ''update of a document that was not read'')
      | Some v0 \<Rightarrow> Inr (txn\<lparr>mutations := mutations txn @ [(key, v)]\<rparr>))"

definition transaction_commit ::
  "('k, 'v) backend \<Rightarrow> ('k, 'v) transaction \<Rightarrow> string attempt_error + ('k, 'v) backend"
where
  "transaction_commit b txn =
     (if list_all (\<lambda>(key, v). current_version b key = v) (readVersions txn)
      then Inr (fold (\<lambda>(key, v). backend_write key v) (mutations txn) b)
      else Inl (Precondition_Conflict ''a document read by the transaction was changed''))"

text \<open>
  Modelled from the spec: the retry policy. The first attempt has number 1. After a
  conflict the runner starts the next attempt from scratch if the attempt number is below
  the maximum, and gives up with the terminal abort otherwise. Any other failure is
  propagated at once. The backoff delay between attempts has no part in the result and
  is left out.
\<close>

datatype 'r retry_decision = Retry nat | Give_up "'r transaction_failure"

definition after_conflict :: "nat \<Rightarrow> nat \<Rightarrow> 'r \<Rightarrow> 'r retry_decision" where
  "after_conflict maxAttempts n reason =
     (if n < maxAttempts then Retry (Suc n) else Give_up (Aborted_Fatal reason))"

type_synonym ('s, 'a) attempt_fn = "nat \<Rightarrow> 's \<Rightarrow> (string attempt_error + 'a) \<times> 's"

text \<open>
  An attempt is a function of its number and of the state of the world; it returns its
  outcome and the world as it left it. The runner returns the number of the last attempt
  it made, the result, and the world.
\<close>

function runWithBackOff ::
  "nat \<Rightarrow> ('s, 'a) attempt_fn \<Rightarrow> nat \<Rightarrow> 's \<Rightarrow> nat \<times> (string transaction_failure + 'a) \<times> 's"
where
  "runWithBackOff maxAttempts attempt n s =
     (case attempt n s of
        (Inr result, s') \<Rightarrow> (n, Inr result, s')
      | (Inl (Precondition_Conflict reason), s') \<Rightarrow>
          (case after_conflict maxAttempts n reason of
             Retry n' \<Rightarrow> runWithBackOff maxAttempts attempt n' s'
           | Give_up e \<Rightarrow> (n, Inl e, s'))
      | (Inl e, s') \<Rightarrow> (n, Inl (Propagated e), s'))"
  by pat_completeness auto
termination
  by (relation "measure (\<lambda>(maxAttempts, attempt, n, s). maxAttempts - n)")
     (auto simp: after_conflict_def split: if_splits)

declare runWithBackOff.simps [simp del]

definition transaction_runner ::
  "nat \<Rightarrow> ('s, 'a) attempt_fn \<Rightarrow> 's \<Rightarrow> nat \<times> (string transaction_failure + 'a) \<times> 's"
where
  "transaction_runner maxAttempts attempt s = runWithBackOff maxAttempts attempt 1 s"

text \<open>
  One attempt of a user function: the function runs against the backend with a fresh
  transaction handle and returns its result with the handle (or fails); then the handle
  is committed. The backend it returns holds whatever was written meanwhile outside the
  transaction.
\<close>

definition run_attempt ::
  "(nat \<Rightarrow> ('k, 'v) backend \<Rightarrow> (string attempt_error + 'a \<times> ('k, 'v) transaction) \<times> ('k, 'v) backend)
     \<Rightarrow> (('k, 'v) backend, 'a) attempt_fn"
where
  "run_attempt updateFunction n b =
     (case updateFunction n b of
        (Inl e, b') \<Rightarrow> (Inl e, b')
      | (Inr (result, txn), b') \<Rightarrow>
          (case transaction_commit b' txn of
             Inl e \<Rightarrow> (Inl e, b')
           | Inr b'' \<Rightarrow> (Inr result, b'')))"

text \<open>
  Modelled from the spec: the maximum number of attempts is a policy constant, declared
  in core/transaction_runner.ts, which is not among the sources; 5 stands for its value.
  The general theorems are stated for an arbitrary maximum; only the concrete runs use
  this value.
\<close>

definition DEFAULT_MAX_ATTEMPTS_COUNT :: nat where
  "DEFAULT_MAX_ATTEMPTS_COUNT = 5"

subsection \<open>The transactions of the integration test (test/integration/api_internal/transaction.test.ts)\<close>

text \<open>
  `handle reading a doc twice with different versions': the user function counts its
  invocations, reads the document, writes it outside the transaction (\<open>1234 + counter\<close>),
  reads it again inside the transaction and stages \<open>count: 16\<close>. The counter is the
  number of the attempt.
\<close>

definition reads_twice ::
  "'k \<Rightarrow> nat \<Rightarrow> ('k, int) backend
     \<Rightarrow> (string attempt_error + unit \<times> ('k, int) transaction) \<times> ('k, int) backend"
where
  "reads_twice docRef counter b =
     (case transaction_get b docRef new_transaction of
        Inl e \<Rightarrow> (Inl e, b)
      | Inr (snapshot, txn1) \<Rightarrow>
          (let b' = backend_write docRef (1234 + int counter) b in
           case transaction_get b' docRef txn1 of
             Inl e \<Rightarrow> (Inl e, b')
           | Inr (snapshot', txn2) \<Rightarrow> (Inr ((), transaction_set docRef 16 txn2), b')))"

text \<open>
  `increment transactionally': every transaction reads the counter document, waits for
  the barrier, and stages \<open>count + 1\<close>; then the runner commits. The state machine of
  one such transaction, one step at a time: a started attempt reads; an attempt that has
  read stages the increment and commits, which ends in the commit, in a new attempt, or
  in the terminal abort.
\<close>

datatype ('k, 'v) runner_state =
    Started nat
  | Reading nat "('k, 'v) transaction" 'v
  | Committed
  | Aborted "string transaction_failure"

definition increment_step ::
  "nat \<Rightarrow> 'k \<Rightarrow> ('k, int) runner_state \<Rightarrow> ('k, int) backend
     \<Rightarrow> ('k, int) runner_state \<times> ('k, int) backend"
where
  "increment_step maxAttempts docRef r b =
     (case r of
        Started n \<Rightarrow>
          (case transaction_get b docRef new_transaction of
             Inl e \<Rightarrow> (Aborted (Propagated e), b)
           | Inr (None, txn) \<Rightarrow>
               (Aborted (Propagated (Programming_Error ''the document does not exist'')), b)
           | Inr (Some c, txn) \<Rightarrow> (Reading n txn c, b))
      | Reading n txn c \<Rightarrow>
          (case transaction_commit b (transaction_set docRef (c + 1) txn) of
             Inr b' \<Rightarrow> (Committed, b')
           | Inl (Precondition_Conflict reason) \<Rightarrow>
               (case after_conflict maxAttempts n reason of
                  Retry n' \<Rightarrow> (Started n', b)
                | Give_up e \<Rightarrow> (Aborted e, b))
           | Inl e \<Rightarrow> (Aborted (Propagated e), b))
      | Committed \<Rightarrow> (Committed, b)
      | Aborted e \<Rightarrow> (Aborted e, b))"

text \<open>
  The concurrent transactions share the backend. A schedule is the order in which they
  take their steps: \<open>step i\<close> lets transaction \<open>i\<close> take its next step. All transactions
  are launched; each makes its first read; then the barrier is released (\<open>at_gate\<close>) and
  they proceed in the order of the schedule.
\<close>

record ('k, 'v) world =
  backend :: "('k, 'v) backend"
  runners :: "('k, 'v) runner_state list"

definition step :: "nat \<Rightarrow> 'k \<Rightarrow> nat \<Rightarrow> ('k, int) world \<Rightarrow> ('k, int) world" where
  "step maxAttempts docRef i w =
     (if i < length (runners w) then
        (case increment_step maxAttempts docRef (runners w ! i) (backend w) of
           (r', b') \<Rightarrow> \<lparr> backend = b', runners = (runners w)[i := r'] \<rparr>)
      else w)"

definition run_schedule :: "nat \<Rightarrow> 'k \<Rightarrow> nat list \<Rightarrow> ('k, int) world \<Rightarrow> ('k, int) world" where
  "run_schedule maxAttempts docRef sched w = fold (step maxAttempts docRef) sched w"

definition launch :: "nat \<Rightarrow> ('k, int) backend \<Rightarrow> ('k, int) world" where
  "launch n b = \<lparr> backend = b, runners = replicate n (Started 1) \<rparr>"

definition at_gate :: "nat \<Rightarrow> 'k \<Rightarrow> nat \<Rightarrow> ('k, int) backend \<Rightarrow> ('k, int) world" where
  "at_gate maxAttempts docRef n b = run_schedule maxAttempts docRef [0..<n] (launch n b)"

text \<open>
  The worst schedule for six transactions: after each commit, every transaction that is
  left fails its own commit and reads again before the next commit.
\<close>

definition worst_case :: "nat list" where
  "worst_case =
     [0, 1, 2, 3, 4, 5] @ [1, 2, 3, 4, 5] @ [1, 2, 3, 4, 5] @ [2, 3, 4, 5] @ [2, 3, 4, 5] @
     [3, 4, 5] @ [3, 4, 5] @ [4, 5] @ [4, 5]"

text \<open>
  What the proofs about the concurrent transactions keep track of: the number of
  committed transactions, the state a transaction may be in once that many have
  committed, and the number of steps a transaction has left at most.
\<close>

definition committed :: "('k, 'v) world \<Rightarrow> nat" where
  "committed w = length (filter (\<lambda>r. r = Committed) (runners w))"

fun runner_ok :: "'k \<Rightarrow> nat \<Rightarrow> int \<Rightarrow> nat \<Rightarrow> ('k, int) runner_state \<Rightarrow> bool" where
  "runner_ok docRef v0 c0 k (Started a) = (1 \<le> a \<and> a \<le> k + 1)"
| "runner_ok docRef v0 c0 k (Reading a txn c) =
     (1 \<le> a \<and>
      (\<exists>j\<le>k. txn = \<lparr> readVersions = [(docRef, v0 + j)], mutations = [] \<rparr>
             \<and> c = c0 + int j \<and> a \<le> j + 1))"
| "runner_ok docRef v0 c0 k Committed = True"
| "runner_ok docRef v0 c0 k (Aborted e) = False"

definition chain_inv :: "'k \<Rightarrow> nat \<Rightarrow> int \<Rightarrow> nat \<Rightarrow> ('k, int) world \<Rightarrow> bool" where
  "chain_inv docRef v0 c0 n w =
     (length (runners w) = n
      \<and> backend w docRef = Some \<lparr> version = v0 + committed w, payload = c0 + int (committed w) \<rparr>
      \<and> list_all (runner_ok docRef v0 c0 (committed w)) (runners w))"

fun steps_left :: "nat \<Rightarrow> ('k, 'v) runner_state \<Rightarrow> nat" where
  "steps_left maxAttempts (Started a) = 2 * (maxAttempts - a) + 2"
| "steps_left maxAttempts (Reading a txn c) = 2 * (maxAttempts - a) + 1"
| "steps_left maxAttempts Committed = 0"
| "steps_left maxAttempts (Aborted e) = 0"

section \<open>The remote document cache and its change buffer (spec, sections 4.1 and 4.2)\<close>

text \<open>
  Modelled from the spec: local/remote_document_cache.ts and
  local/remote_document_change_buffer.ts are not among the sources; only the test wrapper
  \<open>TestRemoteDocumentCache\<close> is. A stored document has an identity, the version at which
  it was read, an existence flag and, when it was found, a payload. The cache maps
  identities to stored documents and keeps the aggregate size of what it stores. The size
  of a document is a parameter \<open>sizeOf\<close>.
\<close>

datatype existence = Found | Missing | Unknown

record ('k, 'p) mutable_document =
  doc_key :: 'k
  read_time :: nat
  doc_state :: existence
  contents :: "'p option"

record ('k, 'p) remote_document_cache =
  entries :: "'k \<rightharpoonup> ('k, 'p) mutable_document"
  byte_size :: int

definition sentinel :: "'k \<Rightarrow> ('k, 'p) mutable_document" where
  "sentinel k = \<lparr> doc_key = k, read_time = 0, doc_state = Unknown, contents = None \<rparr>"

definition cache_getEntry :: "('k, 'p) remote_document_cache \<Rightarrow> 'k \<Rightarrow> ('k, 'p) mutable_document" where
  "cache_getEntry c k = (case entries c k of Some d \<Rightarrow> d | None \<Rightarrow> sentinel k)"

definition getSize :: "('k, 'p) remote_document_cache \<Rightarrow> int" where
  "getSize c = byte_size c"

text \<open>
  Modelled from the spec: the change buffer of one transaction. It holds the pending
  entries and, for every key read through it, the prior state it read from the cache
  (\<open>None\<close> for a key the cache does not hold). \<open>getEntry\<close> returns the pending state of
  the key if there is one, and otherwise what the cache holds, which it remembers.
  \<open>addEntry\<close> stages a document and requires that its key was read first; otherwise it
  is a programming error. \<open>apply\<close> writes every pending entry to the cache and moves the
  size of the cache by the size of the new entry minus the size of the prior state.
\<close>

record ('k, 'p) change_buffer =
  changes :: "('k \<times> ('k, 'p) mutable_document) list"
  prior_reads :: "'k \<rightharpoonup> ('k, 'p) mutable_document option"
  trackRemovals :: bool

definition newChangeBuffer :: "bool \<Rightarrow> ('k, 'p) change_buffer" where
  "newChangeBuffer track = \<lparr> changes = [], prior_reads = Map.empty, trackRemovals = track \<rparr>"

fun put_change ::
  "'k \<Rightarrow> 'd \<Rightarrow> ('k \<times> 'd) list \<Rightarrow> ('k \<times> 'd) list"
where
  "put_change k d [] = [(k, d)]"
| "put_change k d ((k', d') # chs) =
     (if k' = k then (k, d) # chs else (k', d') # put_change k d chs)"

definition buffer_getEntry ::
  "('k, 'p) remote_document_cache \<Rightarrow> 'k \<Rightarrow> ('k, 'p) change_buffer
     \<Rightarrow> ('k, 'p) mutable_document \<times> ('k, 'p) change_buffer"
where
  "buffer_getEntry c k buf =
     (case map_of (changes buf) k of
        Some d \<Rightarrow> (d, buf)
      | None \<Rightarrow>
          (case prior_reads buf k of
             Some prior \<Rightarrow> ((case prior of Some d \<Rightarrow> d | None \<Rightarrow> sentinel k), buf)
           | None \<Rightarrow>
               (cache_getEntry c k, buf\<lparr>prior_reads := (prior_reads buf)(k \<mapsto> entries c k)\<rparr>)))"

fun buffer_getEntries ::
  "('k, 'p) remote_document_cache \<Rightarrow> 'k list \<Rightarrow> ('k, 'p) change_buffer
     \<Rightarrow> ('k \<times> ('k, 'p) mutable_document) list \<times> ('k, 'p) change_buffer"
where
  "buffer_getEntries c [] buf = ([], buf)"
| "buffer_getEntries c (k # ks) buf =
     (case buffer_getEntry c k buf of
        (d, buf') \<Rightarrow>
          (case buffer_getEntries c ks buf' of (ds, buf'') \<Rightarrow> ((k, d) # ds, buf'')))"

definition buffer_addEntry ::
  "('k, 'p) mutable_document \<Rightarrow> ('k, 'p) change_buffer
     \<Rightarrow> string attempt_error + ('k, 'p) change_buffer"
where
  "buffer_addEntry d buf =
     (case prior_reads buf (doc_key d) of
        None \<Rightarrow> Inl (Programming_Error ''cannot add a document that was not read'')
      | Some prior \<Rightarrow> Inr (buf\<lparr>changes := put_change (doc_key d) d (changes buf)\<rparr>))"

definition prior_size ::
  "(('k, 'p) mutable_document \<Rightarrow> nat) \<Rightarrow> ('k, 'p) mutable_document option option \<Rightarrow> int"
where
  "prior_size sizeOf prior = (case prior of Some (Some d) \<Rightarrow> int (sizeOf d) | _ \<Rightarrow> 0)"

definition apply_change ::
  "(('k, 'p) mutable_document \<Rightarrow> nat) \<Rightarrow> ('k, 'p) change_buffer
     \<Rightarrow> 'k \<times> ('k, 'p) mutable_document
     \<Rightarrow> ('k, 'p) remote_document_cache \<Rightarrow> ('k, 'p) remote_document_cache"
where
  "apply_change sizeOf buf ch c =
     (case ch of
        (k, d) \<Rightarrow>
          \<lparr> entries = (entries c)(k \<mapsto> d),
            byte_size = byte_size c + int (sizeOf d) - prior_size sizeOf (prior_reads buf k) \<rparr>)"

definition buffer_apply ::
  "(('k, 'p) mutable_document \<Rightarrow> nat) \<Rightarrow> ('k, 'p) change_buffer
     \<Rightarrow> ('k, 'p) remote_document_cache \<Rightarrow> ('k, 'p) remote_document_cache"
where
  "buffer_apply sizeOf buf c = fold (apply_change sizeOf buf) (changes buf) c"

subsection \<open>TestRemoteDocumentCache (test/unit/local/test_remote_document_cache.ts)\<close>

text \<open>
  \<open>addEntries\<close> runs one persistence transaction: it opens a change buffer, reads every
  document's key through it, then adds every document, then applies the buffer. A failure
  inside the transaction aborts it and leaves the cache as it was.
\<close>

fun add_all ::
  "('k, 'p) mutable_document list \<Rightarrow> ('k, 'p) change_buffer
     \<Rightarrow> string attempt_error + ('k, 'p) change_buffer"
where
  "add_all [] buf = Inr buf"
| "add_all (d # ds) buf =
     (case buffer_addEntry d buf of Inl e \<Rightarrow> Inl e | Inr buf' \<Rightarrow> add_all ds buf')"

definition addEntries ::
  "(('k, 'p) mutable_document \<Rightarrow> nat) \<Rightarrow> ('k, 'p) mutable_document list
     \<Rightarrow> ('k, 'p) remote_document_cache \<Rightarrow> string attempt_error + ('k, 'p) remote_document_cache"
where
  "addEntries sizeOf documents c =
     (let changeBuffer = newChangeBuffer False;
          changeBuffer' = snd (buffer_getEntries c (map doc_key documents) changeBuffer)
      in case add_all documents changeBuffer' of
           Inl e \<Rightarrow> Inl e
         | Inr changeBuffer'' \<Rightarrow> Inr (buffer_apply sizeOf changeBuffer'' c))"

definition addEntry ::
  "(('k, 'p) mutable_document \<Rightarrow> nat) \<Rightarrow> ('k, 'p) mutable_document
     \<Rightarrow> ('k, 'p) remote_document_cache \<Rightarrow> string attempt_error + ('k, 'p) remote_document_cache"
where
  "addEntry sizeOf document c = addEntries sizeOf [document] c"

text \<open>
  The size of the cache is in sync when it is the sum of the sizes of the stored
  documents.
\<close>

definition stored_size ::
  "(('k, 'p) mutable_document \<Rightarrow> nat) \<Rightarrow> ('k, 'p) remote_document_cache \<Rightarrow> 'k \<Rightarrow> int"
where
  "stored_size sizeOf c k = (case entries c k of Some d \<Rightarrow> int (sizeOf d) | None \<Rightarrow> 0)"

definition in_sync ::
  "(('k, 'p) mutable_document \<Rightarrow> nat) \<Rightarrow> ('k, 'p) remote_document_cache \<Rightarrow> bool"
where
  "in_sync sizeOf c =
     (finite (dom (entries c)) \<and> getSize c = (\<Sum>k\<in>dom (entries c). stored_size sizeOf c k))"

text \<open>
  A change buffer is consistent with the cache it was opened on when its pending entries
  have distinct keys, every key with a pending entry was read, and every prior state it
  remembers is what the cache holds.
\<close>

definition buffer_consistent ::
  "('k, 'p) remote_document_cache \<Rightarrow> ('k, 'p) change_buffer \<Rightarrow> bool"
where
  "buffer_consistent c buf =
     (distinct (map fst (changes buf))
      \<and> (\<forall>k\<in>fst ` set (changes buf). prior_reads buf k \<noteq> None)
      \<and> (\<forall>k prior. prior_reads buf k = Some prior \<longrightarrow> prior = entries c k))"

text \<open>A size function for concrete inputs: the length of the payload.\<close>

definition payload_length :: "('k, string) mutable_document \<Rightarrow> nat" where
  "payload_length d = (case contents d of None \<Rightarrow> 0 | Some p \<Rightarrow> length p)"

section \<open>Lemmas about the connection\<close>

lemma ensureActiveStub_databasePath [simp]:
  "databasePath (snd (ensureActiveStub conn)) = databasePath conn"
  by (simp add: ensureActiveStub_def Let_def split: option.splits)

lemma ensureActiveStub_databaseInfo [simp]:
  "databaseInfo (snd (ensureActiveStub conn)) = databaseInfo conn"
  by (simp add: ensureActiveStub_def Let_def split: option.splits)

lemma jsonRequests_differ_iff:
  "invokeRPC_jsonRequest conn req \<noteq> invokeStreamingRPC_jsonRequest conn req
     \<longleftrightarrow> (\<exists>v. req ''database'' = Some v \<and> v \<noteq> JString (databasePath conn))"
proof
  assume "invokeRPC_jsonRequest conn req \<noteq> invokeStreamingRPC_jsonRequest conn req"
  then obtain k where k: "invokeRPC_jsonRequest conn req k \<noteq> invokeStreamingRPC_jsonRequest conn req k"
    by (auto simp: fun_eq_iff)
  then have "k = ''database''"
    by (auto simp: invokeRPC_jsonRequest_def invokeStreamingRPC_jsonRequest_def map_add_def
             split: option.splits if_splits)
  with k show "\<exists>v. req ''database'' = Some v \<and> v \<noteq> JString (databasePath conn)"
    by (auto simp: invokeRPC_jsonRequest_def invokeStreamingRPC_jsonRequest_def map_add_def
             split: option.splits)
next
  assume "\<exists>v. req ''database'' = Some v \<and> v \<noteq> JString (databasePath conn)"
  then obtain v where v: "req ''database'' = Some v" "v \<noteq> JString (databasePath conn)"
    by blast
  then have "invokeRPC_jsonRequest conn req ''database''
               \<noteq> invokeStreamingRPC_jsonRequest conn req ''database''"
    by (simp add: invokeRPC_jsonRequest_def invokeStreamingRPC_jsonRequest_def map_add_def)
  then show "invokeRPC_jsonRequest conn req \<noteq> invokeStreamingRPC_jsonRequest conn req"
    by (auto simp: fun_eq_iff)
qed

section \<open>Lemmas about an open stream\<close>

lemma close_stream_closed [simp]:
  "closed s \<Longrightarrow> close_stream grpc_write onClose err s = (s, [], None)"
  by simp

lemma bridge_call_closed [simp]:
  "closed s \<Longrightarrow> bridge_call grpc_write c s = (s, [], None)"
  by (cases c) (simp_all add: sendFn_def)

lemma bridge_calls_closed [simp]:
  "closed s \<Longrightarrow> bridge_calls grpc_write cs s = (s, [], None)"
  by (induction cs) simp_all

lemma close_stream_first:
  "\<not> closed s \<Longrightarrow>
     close_stream grpc_write onClose err s = (s\<lparr>closed := True\<rparr>, [CallOnClose err, GrpcEnd], None)"
  by simp

lemma bridge_call_open:
  assumes "\<not> closed s" and "bridge_call grpc_write c s = (s', effs, x)"
  shows "(s' = s \<and> list_all is_GrpcWrite effs)
       \<or> (s' = s\<lparr>closed := True\<rparr> \<and> x = None \<and> effs = [CallOnClose None, GrpcEnd])"
proof (cases c)
  case (Send msg)
  with assms show ?thesis by (auto simp: sendFn_def split: option.splits)
next
  case (Close onClose)
  with assms show ?thesis by (simp add: close_stream_first del: close_stream.simps)
qed

lemma bridge_calls_open:
  fixes effs :: "('req, 'resp, 'c, 'x) effect list"
  assumes "\<not> closed s" and "bridge_calls grpc_write cs s = (s', effs, x)"
  shows "(s' = s \<and> list_all is_GrpcWrite effs)
       \<or> (s' = s\<lparr>closed := True\<rparr> \<and> x = None
            \<and> (\<exists>pre. list_all is_GrpcWrite pre \<and> effs = pre @ [CallOnClose None, GrpcEnd]))"
  using assms
proof (induction cs arbitrary: s s' effs x)
  case Nil
  then show ?case by simp
next
  case (Cons c cs)
  obtain s1 and e1 :: "('req, 'resp, 'c, 'x) effect list" and x1
    where c: "bridge_call grpc_write c s = (s1, e1, x1)"
    by (metis prod_cases3)
  from bridge_call_open[OF Cons.prems(1) c]
  consider (same) "s1 = s" "list_all is_GrpcWrite e1"
    | (closed) "s1 = s\<lparr>closed := True\<rparr>" "x1 = None" "e1 = [CallOnClose None, GrpcEnd]"
    by blast
  then show ?case
  proof cases
    case same
    show ?thesis
    proof (cases x1)
      case (Some e)
      with c Cons.prems(2) same show ?thesis by simp
    next
      case None
      obtain s2 and e2 :: "('req, 'resp, 'c, 'x) effect list" and x2
        where cs: "bridge_calls grpc_write cs s = (s2, e2, x2)"
        by (metis prod_cases3)
      have eq: "s' = s2" "effs = e1 @ e2" "x = x2"
        using c cs None same Cons.prems(2) by simp_all
      from Cons.IH[OF Cons.prems(1) cs]
      show ?thesis
      proof
        assume "s2 = s \<and> list_all is_GrpcWrite e2"
        with eq same show ?thesis by simp
      next
        assume "s2 = s\<lparr>closed := True\<rparr> \<and> x2 = None
            \<and> (\<exists>pre. list_all is_GrpcWrite pre \<and> e2 = pre @ [CallOnClose None, GrpcEnd])"
        then obtain pre where pre: "s2 = s\<lparr>closed := True\<rparr>" "x2 = None"
            "list_all is_GrpcWrite pre" "e2 = pre @ [CallOnClose None, GrpcEnd]"
          by blast
        have "list_all is_GrpcWrite (e1 @ pre)" using same pre by simp
        moreover have "effs = (e1 @ pre) @ [CallOnClose None, GrpcEnd]" using eq pre by simp
        ultimately show ?thesis using eq pre by blast
      qed
    qed
  next
    case closed
    have "bridge_calls grpc_write cs s1 = (s1, [], None)"
      using closed(1) by simp
    with c closed Cons.prems(2) have "s' = s\<lparr>closed := True\<rparr>" "x = None" 
       "effs = [] @ [CallOnClose None, GrpcEnd]" by simp_all
    then show ?thesis by (intro disjI2 conjI exI[of _ "[]"]) simp_all
  qed
qed

lemma bridge_calls_effects:
  fixes effs :: "('req, 'resp, 'c, 'x) effect list"
  assumes "bridge_calls grpc_write cs s = (s', effs, x)"
  shows "list_all (\<lambda>y. is_GrpcWrite y \<or> is_closing y) effs
         \<and> open_timer_pending s' = open_timer_pending s \<and> (closed s \<longrightarrow> closed s')"
proof (cases "closed s")
  case True
  with assms show ?thesis by simp
next
  case False
  from bridge_calls_open[OF False assms] show ?thesis
    by (auto simp: list_all_iff)
qed

lemma handle_closed:
  fixes effs :: "('req, 'resp, 'c, 'x) effect list"
  assumes "closed s" and "handle grpc_write mapCode i s = (s', effs, x)"
  shows "closed s' \<and> x = None \<and> list_all (\<lambda>y. y = CallOnOpen) effs"
  using assms by (cases i) (auto split: if_splits)

lemma handle_open:
  fixes effs :: "('req, 'resp, 'c, 'x) effect list"
  assumes "\<not> closed s" and "handle grpc_write mapCode i s = (s', effs, x)"
  shows "(\<not> closed s' \<and> list_all (\<lambda>y. \<not> is_closing y) effs)
       \<or> (closed s' \<and> x = None
            \<and> (\<exists>pre e. list_all (\<lambda>y. \<not> is_closing y) pre \<and> effs = pre @ [CallOnClose e, GrpcEnd]))"
proof -
  have calls: "(\<not> closed t' \<and> list_all (\<lambda>y. \<not> is_closing y) es)
       \<or> (closed t' \<and> x' = None
            \<and> (\<exists>pre e. list_all (\<lambda>y. \<not> is_closing y) pre \<and> es = pre @ [CallOnClose e, GrpcEnd]))"
    if "\<not> closed t" "bridge_calls grpc_write cs t = (t', es, x')"
    for t t' cs x' and es :: "('req, 'resp, 'c, 'x) effect list"
  proof -
    have w: "list_all (\<lambda>y. \<not> is_closing y) pre" if "list_all is_GrpcWrite pre"
      for pre :: "('req, 'resp, 'c, 'x) effect list"
      using that by (induction pre) (auto elim: is_GrpcWrite.elims)
    from bridge_calls_open[OF that] show ?thesis
      using that(1) w by auto
  qed
  show ?thesis
  proof (cases i)
    case (Owner c)
    have "bridge_calls grpc_write [c] s = (s', effs, x)"
      using assms(2) Owner by (auto split: prod.splits option.splits)
    from calls[OF assms(1) this] show ?thesis .
  next
    case (GrpcData msg onMessage)
    obtain t and es :: "('req, 'resp, 'c, 'x) effect list" and x'
      where bc: "bridge_calls grpc_write onMessage s = (t, es, x')"
      by (metis prod_cases3)
    with assms GrpcData have eq: "s' = t" "effs = CallOnMessage msg # es" "x = x'"
      by simp_all
    from calls[OF assms(1) bc] show ?thesis
    proof
      assume "\<not> closed t \<and> list_all (\<lambda>y. \<not> is_closing y) es"
      with eq show ?thesis by simp
    next
      assume "closed t \<and> x' = None
            \<and> (\<exists>pre e. list_all (\<lambda>y. \<not> is_closing y) pre \<and> es = pre @ [CallOnClose e, GrpcEnd])"
      then obtain pre e where p: "closed t" "x' = None" "list_all (\<lambda>y. \<not> is_closing y) pre"
          "es = pre @ [CallOnClose e, GrpcEnd]" by blast
      have "list_all (\<lambda>y. \<not> is_closing y) (CallOnMessage msg # pre)" using p by simp
      moreover have "effs = (CallOnMessage msg # pre) @ [CallOnClose e, GrpcEnd]" using eq p by simp
      ultimately show ?thesis using eq p by blast
    qed
  next
    case (GrpcEnded onClose)
    with assms have "s' = s\<lparr>closed := True\<rparr>" "x = None" "effs = [] @ [CallOnClose None, GrpcEnd]"
      by simp_all
    then show ?thesis by (intro disjI2 conjI exI[of _ "[]"] exI[of _ None]) simp_all
  next
    case (GrpcError grpcError onClose)
    with assms have "s' = s\<lparr>closed := True\<rparr>" "x = None"
        "effs = [] @ [CallOnClose (Some (to_FirestoreError mapCode grpcError)), GrpcEnd]"
      by simp_all
    then show ?thesis
      by (intro disjI2 conjI exI[of _ "[]"] exI[of _ "Some (to_FirestoreError mapCode grpcError)"])
         simp_all
  next
    case (TimerFired onOpen)
    show ?thesis
    proof (cases "open_timer_pending s")
      case False
      with assms TimerFired show ?thesis by simp
    next
      case True
      obtain t and es :: "('req, 'resp, 'c, 'x) effect list" and x'
        where bc: "bridge_calls grpc_write onOpen (s\<lparr>open_timer_pending := False\<rparr>) = (t, es, x')"
        by (metis prod_cases3)
      with assms TimerFired True have eq: "s' = t" "effs = CallOnOpen # es" "x = x'"
        by simp_all
      have nc: "\<not> closed (s\<lparr>open_timer_pending := False\<rparr>)" using assms(1) by simp
      from calls[OF nc bc] show ?thesis
      proof
        assume "\<not> closed t \<and> list_all (\<lambda>y. \<not> is_closing y) es"
        with eq show ?thesis by simp
      next
        assume "closed t \<and> x' = None
              \<and> (\<exists>pre e. list_all (\<lambda>y. \<not> is_closing y) pre \<and> es = pre @ [CallOnClose e, GrpcEnd])"
        then obtain pre e where p: "closed t" "x' = None" "list_all (\<lambda>y. \<not> is_closing y) pre"
            "es = pre @ [CallOnClose e, GrpcEnd]" by blast
        have "list_all (\<lambda>y. \<not> is_closing y) (CallOnOpen # pre)" using p by simp
        moreover have "effs = (CallOnOpen # pre) @ [CallOnClose e, GrpcEnd]" using eq p by simp
        ultimately show ?thesis using eq p by blast
      qed
    qed
  qed
qed

lemma run_stream_closed:
  fixes tr :: "('req, 'resp, 'c, 'x) effect list"
  assumes "closed s" and "run_stream grpc_write mapCode ins s = (s', tr)"
  shows "closed s' \<and> list_all (\<lambda>y. y = CallOnOpen) tr"
  using assms
proof (induction ins arbitrary: s s' tr)
  case Nil
  then show ?case by simp
next
  case (Cons i ins)
  obtain s1 and e1 :: "('req, 'resp, 'c, 'x) effect list" and x1
    where h: "handle grpc_write mapCode i s = (s1, e1, x1)"
    by (metis prod_cases3)
  obtain s2 and e2 :: "('req, 'resp, 'c, 'x) effect list"
    where r: "run_stream grpc_write mapCode ins s1 = (s2, e2)"
    by (metis surj_pair)
  from handle_closed[OF Cons.prems(1) h]
  have h1: "closed s1" "x1 = None" "list_all (\<lambda>y. y = CallOnOpen) e1" by simp_all
  from Cons.IH[OF h1(1) r] have "closed s2" "list_all (\<lambda>y. y = CallOnOpen) e2" by simp_all
  moreover have "s' = s2" "tr = e1 @ e2" using Cons.prems(2) h r h1(2) by simp_all
  ultimately show ?case using h1(3) by simp
qed

lemma run_stream_open:
  fixes tr :: "('req, 'resp, 'c, 'x) effect list"
  assumes "\<not> closed s" and "run_stream grpc_write mapCode ins s = (s', tr)"
  shows "(\<not> closed s' \<and> list_all (\<lambda>y. \<not> is_closing y) tr)
       \<or> (closed s'
            \<and> (\<exists>pre e post. list_all (\<lambda>y. \<not> is_closing y) pre
                  \<and> list_all (\<lambda>y. y = CallOnOpen) post
                  \<and> tr = pre @ [CallOnClose e, GrpcEnd] @ post))"
  using assms
proof (induction ins arbitrary: s s' tr)
  case Nil
  then show ?case by simp
next
  case (Cons i ins)
  obtain s1 and e1 :: "('req, 'resp, 'c, 'x) effect list" and x1
    where h: "handle grpc_write mapCode i s = (s1, e1, x1)"
    by (metis prod_cases3)
  obtain s2 and e2 :: "('req, 'resp, 'c, 'x) effect list"
    where r: "run_stream grpc_write mapCode ins s1 = (s2, e2)"
    by (metis surj_pair)
  define rs :: "('req, 'resp, 'c, 'x) effect list"
    where "rs = (case x1 of Some e \<Rightarrow> [Raised e] | None \<Rightarrow> [])"
  have eq: "s' = s2" "tr = e1 @ rs @ e2"
    using Cons.prems(2) h r by (simp_all add: rs_def)
  have rs: "list_all (\<lambda>y. \<not> is_closing y) rs"
    by (simp add: rs_def split: option.splits)
  from handle_open[OF Cons.prems(1) h]
  show ?case
  proof
    assume a: "\<not> closed s1 \<and> list_all (\<lambda>y. \<not> is_closing y) e1"
    then have nc: "\<not> closed s1" by simp
    from Cons.IH[OF nc r]
    show ?thesis
    proof
      assume "\<not> closed s2 \<and> list_all (\<lambda>y. \<not> is_closing y) e2"
      with a rs eq show ?thesis by simp
    next
      assume "closed s2
            \<and> (\<exists>pre e post. list_all (\<lambda>y. \<not> is_closing y) pre
                  \<and> list_all (\<lambda>y. y = CallOnOpen) post
                  \<and> e2 = pre @ [CallOnClose e, GrpcEnd] @ post)"
      then obtain pre e post where p: "closed s2" "list_all (\<lambda>y. \<not> is_closing y) pre"
          "list_all (\<lambda>y. y = CallOnOpen) post" "e2 = pre @ [CallOnClose e, GrpcEnd] @ post"
        by blast
      have "list_all (\<lambda>y. \<not> is_closing y) (e1 @ rs @ pre)" using a rs p by simp
      moreover have "tr = (e1 @ rs @ pre) @ [CallOnClose e, GrpcEnd] @ post" using eq p by simp
      ultimately show ?thesis using eq p by blast
    qed
  next
    assume "closed s1 \<and> x1 = None
            \<and> (\<exists>pre e. list_all (\<lambda>y. \<not> is_closing y) pre \<and> e1 = pre @ [CallOnClose e, GrpcEnd])"
    then obtain pre e where p: "closed s1" "x1 = None" "list_all (\<lambda>y. \<not> is_closing y) pre"
        "e1 = pre @ [CallOnClose e, GrpcEnd]" by blast
    from run_stream_closed[OF p(1) r] have c: "closed s2" "list_all (\<lambda>y. y = CallOnOpen) e2"
      by simp_all
    have "tr = pre @ [CallOnClose e, GrpcEnd] @ e2" using eq p by (simp add: rs_def)
    with c p eq show ?thesis by blast
  qed
qed

lemma closes_of_shape:
  fixes pre :: "('req, 'resp, 'c, 'x) effect list"
  assumes "list_all (\<lambda>y. \<not> is_closing y) pre" and "list_all (\<lambda>y. y = CallOnOpen) post"
  shows "filter is_closing (pre @ [CallOnClose e, GrpcEnd] @ post) = [CallOnClose e, GrpcEnd]"
    and "filter is_CallOnClose (pre @ [CallOnClose e, GrpcEnd] @ post) = [CallOnClose e]"
proof -
  have 1: "filter is_closing pre = []" using assms(1) by (induction pre) auto
  have 2: "filter is_closing post = []" using assms(2) by (induction post) auto
  have 3: "filter is_CallOnClose pre = []" using assms(1)
    by (induction pre) (auto elim: is_CallOnClose.elims)
  have 4: "filter is_CallOnClose post = []" using assms(2) by (induction post) auto
  show "filter is_closing (pre @ [CallOnClose e, GrpcEnd] @ post) = [CallOnClose e, GrpcEnd]"
    using 1 2 by simp
  show "filter is_CallOnClose (pre @ [CallOnClose e, GrpcEnd] @ post) = [CallOnClose e]"
    using 3 4 by simp
qed

lemma no_closing_filter:
  fixes tr :: "('req, 'resp, 'c, 'x) effect list"
  assumes "list_all (\<lambda>y. \<not> is_closing y) tr"
  shows "filter is_closing tr = []" and "filter is_CallOnClose tr = []"
  using assms by (induction tr) (auto elim: is_CallOnClose.elims)

lemma run_stream_append:
  "run_stream grpc_write mapCode (ins @ ins') s =
     (case run_stream grpc_write mapCode ins s of
        (s1, tr1) \<Rightarrow>
          (case run_stream grpc_write mapCode ins' s1 of (s2, tr2) \<Rightarrow> (s2, tr1 @ tr2)))"
  by (induction ins arbitrary: s) (auto split: prod.splits)

lemma run_close_invocations:
  fixes ins :: "('req, 'resp, 'rc) stream_input list"
  assumes "list_all is_close_invocation ins" and "\<not> closed s"
  shows "(run_stream grpc_write mapCode ins s
            :: grpc_stream \<times> ('req, 'resp, 'c, 'x) effect list) =
         (case ins of
            [] \<Rightarrow> (s, [])
          | i # _ \<Rightarrow> (s\<lparr>closed := True\<rparr>, [CallOnClose (terminal_error mapCode i), GrpcEnd]))"
proof (cases ins)
  case Nil
  then show ?thesis by simp
next
  case (Cons i rest)
  have later: "(run_stream grpc_write mapCode js t
            :: grpc_stream \<times> ('req, 'resp, 'c, 'x) effect list) = (t, [])"
    if "list_all is_close_invocation js" "closed t" for js :: "('req, 'resp, 'rc) stream_input list" and t
    using that
  proof (induction js)
    case Nil
    then show ?case by simp
  next
    case (Cons j js)
    then have "(handle grpc_write mapCode j t :: ('req, 'resp, 'c, 'x) outcome) = (t, [], None)"
      by (cases j rule: is_close_invocation.cases) simp_all
    with Cons show ?case by simp
  qed
  have first: "(handle grpc_write mapCode i s :: ('req, 'resp, 'c, 'x) outcome) =
        (s\<lparr>closed := True\<rparr>, [CallOnClose (terminal_error mapCode i), GrpcEnd], None)"
    using assms Cons by (cases i rule: is_close_invocation.cases) simp_all
  have "list_all is_close_invocation rest" using assms(1) Cons by simp
  from later[OF this, of "s\<lparr>closed := True\<rparr>"] first Cons show ?thesis by simp
qed

lemma openStream_fresh:
  assumes "openStream rt conn rpcName authToken appCheckToken = (conn', Inr (call, s0))"
  shows "s0 = \<lparr> closed = False, open_timer_pending = True \<rparr>"
  using assms
  by (auto simp: openStream_def Let_def split: prod.splits sum.splits)

lemma open_before_message_skip:
  fixes xs :: "('req, 'resp, 'c, 'x) effect list"
  assumes "list_all (\<lambda>y. \<not> is_CallOnMessage y \<and> y \<noteq> CallOnOpen) xs"
  shows "open_before_message (xs @ ys) = open_before_message ys"
  using assms
proof (induction xs)
  case Nil
  then show ?case by simp
next
  case (Cons y xs)
  then show ?case by (cases y) simp_all
qed

lemma open_before_message_split:
  fixes tr :: "('req, 'resp, 'c, 'x) effect list"
  assumes "open_before_message tr" and "tr = pre @ CallOnMessage msg # post"
  shows "CallOnOpen \<in> set pre"
  using assms
proof (induction pre arbitrary: tr)
  case Nil
  then show ?case by simp
next
  case (Cons y pre)
  then show ?case by (cases y) auto
qed

lemma owner_effects_skip:
  fixes xs :: "('req, 'resp, 'c, 'x) effect list"
  assumes "list_all (\<lambda>y. is_GrpcWrite y \<or> is_closing y) xs"
  shows "list_all (\<lambda>y. \<not> is_CallOnMessage y \<and> y \<noteq> CallOnOpen) xs"
  using assms
proof (induction xs)
  case Nil
  then show ?case by simp
next
  case (Cons y xs)
  then show ?case by (cases y) simp_all
qed

lemma handle_other:
  fixes effs :: "('req, 'resp, 'c, 'x) effect list"
  assumes "handle grpc_write mapCode i s = (s', effs, x)"
    and "\<And>onOpen. i \<noteq> TimerFired onOpen" and "\<And>msg onMessage. i \<noteq> GrpcData msg onMessage"
  shows "list_all (\<lambda>y. \<not> is_CallOnMessage y \<and> y \<noteq> CallOnOpen) effs
         \<and> open_timer_pending s' = open_timer_pending s"
proof (cases i)
  case (Owner c)
  have "bridge_calls grpc_write [c] s = (s', effs, x)"
    using assms(1) Owner by (auto split: prod.splits option.splits)
  from bridge_calls_effects[OF this] owner_effects_skip show ?thesis by blast
next
  case (GrpcData msg onMessage)
  with assms(3) show ?thesis by blast
next
  case (GrpcEnded onClose)
  with assms(1) show ?thesis by (cases "closed s") auto
next
  case (GrpcError grpcError onClose)
  with assms(1) show ?thesis by (cases "closed s") auto
next
  case (TimerFired onOpen)
  with assms(2) show ?thesis by blast
qed

lemma run_stream_open_first:
  fixes tr :: "('req, 'resp, 'c, 'x) effect list"
  assumes "open_timer_pending s" and "timer_before_data ins"
    and "run_stream grpc_write mapCode ins s = (s', tr)"
  shows "open_before_message tr"
  using assms
proof (induction ins arbitrary: s s' tr)
  case Nil
  then show ?case by simp
next
  case (Cons i ins)
  obtain s1 and e1 :: "('req, 'resp, 'c, 'x) effect list" and x1
    where h: "handle grpc_write mapCode i s = (s1, e1, x1)"
    by (metis prod_cases3)
  obtain s2 and e2 :: "('req, 'resp, 'c, 'x) effect list"
    where r: "run_stream grpc_write mapCode ins s1 = (s2, e2)"
    by (metis surj_pair)
  define rs :: "('req, 'resp, 'c, 'x) effect list"
    where "rs = (case x1 of Some e \<Rightarrow> [Raised e] | None \<Rightarrow> [])"
  have eq: "tr = e1 @ rs @ e2"
    using Cons.prems(3) h r by (simp add: rs_def)
  have rs: "list_all (\<lambda>y. \<not> is_CallOnMessage y \<and> y \<noteq> CallOnOpen) rs"
    by (simp add: rs_def split: option.splits)
  show ?case
  proof (cases i)
    case (TimerFired onOpen)
    with h Cons.prems(1) obtain es where "e1 = CallOnOpen # es"
      by (auto split: prod.splits)
    with eq show ?thesis by simp
  next
    case (GrpcData msg onMessage)
    with Cons.prems(2) show ?thesis by simp
  next
    case (Owner c)
    with handle_other[OF h] have o: "list_all (\<lambda>y. \<not> is_CallOnMessage y \<and> y \<noteq> CallOnOpen) e1"
        "open_timer_pending s1 = open_timer_pending s" by simp_all
    have "timer_before_data ins" using Cons.prems(2) Owner by simp
    from Cons.IH[OF _ this r] o(2) Cons.prems(1) have "open_before_message e2" by simp
    then show ?thesis using eq o(1) rs by (simp add: open_before_message_skip)
  next
    case (GrpcEnded onClose)
    with handle_other[OF h] have o: "list_all (\<lambda>y. \<not> is_CallOnMessage y \<and> y \<noteq> CallOnOpen) e1"
        "open_timer_pending s1 = open_timer_pending s" by simp_all
    have "timer_before_data ins" using Cons.prems(2) GrpcEnded by simp
    from Cons.IH[OF _ this r] o(2) Cons.prems(1) have "open_before_message e2" by simp
    then show ?thesis using eq o(1) rs by (simp add: open_before_message_skip)
  next
    case (GrpcError grpcError onClose)
    with handle_other[OF h] have o: "list_all (\<lambda>y. \<not> is_CallOnMessage y \<and> y \<noteq> CallOnOpen) e1"
        "open_timer_pending s1 = open_timer_pending s" by simp_all
    have "timer_before_data ins" using Cons.prems(2) GrpcError by simp
    from Cons.IH[OF _ this r] o(2) Cons.prems(1) have "open_before_message e2" by simp
    then show ?thesis using eq o(1) rs by (simp add: open_before_message_skip)
  qed
qed

lemma no_message_after_close_shape:
  fixes pre :: "('req, 'resp, 'c, 'x) effect list"
  assumes "list_all (\<lambda>y. \<not> is_closing y) pre" and "list_all (\<lambda>y. y = CallOnOpen) post"
  shows "no_message_after_close (pre @ [CallOnClose e, GrpcEnd] @ post)"
  using assms(1)
proof (induction pre)
  case Nil
  from assms(2) show ?case by (auto simp: list_all_iff)
next
  case (Cons y pre)
  then show ?case by (cases y) simp_all
qed

lemma no_message_after_close_none:
  fixes tr :: "('req, 'resp, 'c, 'x) effect list"
  assumes "list_all (\<lambda>y. \<not> is_closing y) tr"
  shows "no_message_after_close tr"
  using assms
proof (induction tr)
  case Nil
  show ?case by simp
next
  case (Cons y tr)
  then show ?case by (cases y) simp_all
qed

lemma no_message_after_close_split:
  fixes tr :: "('req, 'resp, 'c, 'x) effect list"
  assumes "no_message_after_close tr" and "tr = pre @ CallOnClose err # post"
  shows "CallOnMessage msg \<notin> set post"
  using assms
proof (induction pre arbitrary: tr)
  case Nil
  then show ?case by (auto simp: list_all_iff)
next
  case (Cons y pre)
  show ?case
  proof (cases "is_CallOnClose y")
    case True
    then obtain e0 where "y = CallOnClose e0" by (cases y) simp_all
    with Cons.prems have "\<forall>z\<in>set post. \<not> is_CallOnMessage z"
      by (simp add: list_all_iff)
    then show ?thesis by force
  next
    case False
    then have "no_message_after_close (y # pre @ CallOnClose err # post)
                 = no_message_after_close (pre @ CallOnClose err # post)"
      by (cases y) simp_all
    with Cons.prems Cons.IH[of "pre @ CallOnClose err # post"] show ?thesis by simp
  qed
qed

lemma returned_stream_fresh:
  assumes "returned_stream (openStream rt conn rpcName authToken appCheckToken) = Some s0"
  shows "s0 = \<lparr> closed = False, open_timer_pending = True \<rparr>"
proof -
  obtain conn' r where r: "openStream rt conn rpcName authToken appCheckToken = (conn', r)"
    by (metis surj_pair)
  with assms obtain call where "r = Inr (call, s0)"
    by (auto simp: returned_stream_def split: sum.splits)
  with r openStream_fresh show ?thesis by blast
qed

lemma example_stream:
  "returned_stream (openStream example_runtime example_connection ''Listen'' None None)
     = Some \<lparr> closed = False, open_timer_pending = True \<rparr>"
  by (simp add: returned_stream_def openStream_def ensureActiveStub_def example_connection_def
        GrpcConnection_def createMetadata_def hardAssert_def Let_def)

lemma token_accepted_createMetadata:
  assumes "token_accepted authToken"
  shows "createMetadata rt dbPath authToken appCheckToken app_id =
     Inr (metadata_set ''x-goog-request-params'' dbPath
           (metadata_set ''Google-Cloud-Resource-Prefix'' dbPath
             (metadata_set ''X-Goog-Api-Client'' (X_GOOG_API_CLIENT_VALUE rt)
               ((if app_id \<noteq> [] then metadata_set ''X-Firebase-GMPID'' app_id else id)
                 ((case appCheckToken of Some t \<Rightarrow> set_headers (headers t) | None \<Rightarrow> id)
                   ((case authToken of Some t \<Rightarrow> set_headers (headers t) | None \<Rightarrow> id)
                      Map.empty))))))"
  using assms
  by (simp add: createMetadata_def hardAssert_def token_accepted_def Let_def split: option.splits)

lemma set_headers_lookup:
  "set_headers hs m (normalizeKey key) =
     (case header_lookup hs key of Some v \<Rightarrow> Some v | None \<Rightarrow> m (normalizeKey key))"
proof (induction hs arbitrary: m)
  case Nil
  show ?case by (simp add: set_headers_def header_lookup_def)
next
  case (Cons h hs)
  obtain k v where h: "h = (k, v)" by (cases h)
  have step: "set_headers (h # hs) m = set_headers hs (metadata_set k v m)"
    by (simp add: set_headers_def h)
  have hl: "header_lookup (h # hs) key =
      (case header_lookup hs key of Some w \<Rightarrow> Some w
       | None \<Rightarrow> (if normalizeKey k = normalizeKey key then Some v else None))"
    by (auto simp: header_lookup_def h map_add_def split: option.splits)
  have ih: "set_headers hs (metadata_set k v m) (normalizeKey key) =
      (case header_lookup hs key of Some w \<Rightarrow> Some w
       | None \<Rightarrow> metadata_set k v m (normalizeKey key))"
    by (rule Cons.IH)
  have ms: "metadata_set k v m (normalizeKey key) =
      (if normalizeKey k = normalizeKey key then Some v else m (normalizeKey key))"
    by (simp add: metadata_set_def)
  show ?case
    unfolding step hl ih ms by (simp split: option.splits)
qed

lemma createMetadata_not_OAuth:
  assumes "type t \<noteq> ''OAuth''"
  shows "createMetadata rt dbPath (Some t) appCheckToken app_id
           = Inl (AssertionFailed ''If provided, token must be OAuth'')"
  using assms by (simp add: createMetadata_def hardAssert_def)

lemma invokeRPC_sent:
  assumes "token_accepted authToken"
  shows "sent_request (invokeRPC mapCode transport rt conn rpcName path req authToken appCheckToken)
           = Some (invokeRPC_jsonRequest conn req)"
proof -
  obtain stub conn' where e: "ensureActiveStub conn = (stub, conn')" by (metis surj_pair)
  then have p: "databasePath conn' = databasePath conn"
    using ensureActiveStub_databasePath[of conn] by simp
  obtain md where "createMetadata rt (databasePath conn') authToken appCheckToken
             (appId (databaseInfo conn')) = Inr md"
    using token_accepted_createMetadata[OF assms] by blast
  with e p show ?thesis
    by (simp add: sent_request_def invokeRPC_def invokeRPC_issue_def invokeRPC_jsonRequest_def)
qed

lemma invokeStreamingRPC_sent:
  assumes "token_accepted authToken"
  shows "sent_request (invokeStreamingRPC mapCode transport rt conn rpcName path req authToken
           appCheckToken) = Some (invokeStreamingRPC_jsonRequest conn req)"
proof -
  obtain stub conn' where e: "ensureActiveStub conn = (stub, conn')" by (metis surj_pair)
  then have p: "databasePath conn' = databasePath conn"
    using ensureActiveStub_databasePath[of conn] by simp
  obtain md where "createMetadata rt (databasePath conn') authToken appCheckToken
             (appId (databaseInfo conn')) = Inr md"
    using token_accepted_createMetadata[OF assms] by blast
  with e p show ?thesis
    by (simp add: sent_request_def invokeStreamingRPC_def invokeStreamingRPC_issue_def
          invokeStreamingRPC_jsonRequest_def)
qed

lemma later_keys_normalized:
  "normalizeKey ''X-Goog-Api-Client'' = ''x-goog-api-client''"
  "normalizeKey ''Google-Cloud-Resource-Prefix'' = ''google-cloud-resource-prefix''"
  "normalizeKey ''x-goog-request-params'' = ''x-goog-request-params''"
  "normalizeKey ''X-Firebase-GMPID'' = ''x-firebase-gmpid''"
  by (simp_all add: normalizeKey_def toLowerCase_char_def)

lemma createMetadata_get:
  assumes "createMetadata rt dbPath authToken appCheckToken app_id = Inr md"
  shows "metadata_get md ''X-Goog-Api-Client'' = Some (X_GOOG_API_CLIENT_VALUE rt)"
    and "metadata_get md ''Google-Cloud-Resource-Prefix'' = Some dbPath"
    and "metadata_get md ''x-goog-request-params'' = Some dbPath"
    and "app_id \<noteq> [] \<Longrightarrow> metadata_get md ''X-Firebase-GMPID'' = Some app_id"
    and "normalizeKey key \<notin> set (later_keys app_id) \<Longrightarrow>
           metadata_get md key =
             (case token_lookup appCheckToken key of
                Some v \<Rightarrow> Some v
              | None \<Rightarrow> token_lookup authToken key)"
proof -
  have acc: "token_accepted authToken"
    using assms by (auto simp: createMetadata_def hardAssert_def token_accepted_def
        split: if_splits option.splits)
  note md = token_accepted_createMetadata[OF acc, of rt dbPath appCheckToken app_id, unfolded assms]
  from md show "metadata_get md ''X-Goog-Api-Client'' = Some (X_GOOG_API_CLIENT_VALUE rt)"
    by (simp add: metadata_get_def metadata_set_def later_keys_normalized)
  from md show "metadata_get md ''Google-Cloud-Resource-Prefix'' = Some dbPath"
    by (simp add: metadata_get_def metadata_set_def later_keys_normalized)
  from md show "metadata_get md ''x-goog-request-params'' = Some dbPath"
    by (simp add: metadata_get_def metadata_set_def later_keys_normalized)
  from md show "metadata_get md ''X-Firebase-GMPID'' = Some app_id" if "app_id \<noteq> []"
    using that by (simp add: metadata_get_def metadata_set_def later_keys_normalized)
  show "metadata_get md key =
             (case token_lookup appCheckToken key of
                Some v \<Rightarrow> Some v
              | None \<Rightarrow> token_lookup authToken key)"
    if "normalizeKey key \<notin> set (later_keys app_id)"
  proof -
    have k: "normalizeKey key \<noteq> ''x-goog-api-client''"
        "normalizeKey key \<noteq> ''google-cloud-resource-prefix''"
        "normalizeKey key \<noteq> ''x-goog-request-params''"
        "app_id \<noteq> [] \<Longrightarrow> normalizeKey key \<noteq> ''x-firebase-gmpid''"
      using that by (auto simp: later_keys_def split: if_splits)
    have "metadata_get md key =
        ((case appCheckToken of Some t \<Rightarrow> set_headers (headers t) | None \<Rightarrow> id)
           ((case authToken of Some t \<Rightarrow> set_headers (headers t) | None \<Rightarrow> id) Map.empty))
          (normalizeKey key)"
      using md k by (simp add: metadata_get_def metadata_set_def later_keys_normalized)
    also have "\<dots> = (case token_lookup appCheckToken key of
                Some v \<Rightarrow> Some v
              | None \<Rightarrow> token_lookup authToken key)"
      by (simp add: token_lookup_def set_headers_lookup split: option.splits)
    finally show ?thesis .
  qed
qed

lemma invokeRPC_result:
  assumes "token_accepted authToken"
  shows "\<exists>stub md.
     createMetadata rt (databasePath conn) authToken appCheckToken (appId (databaseInfo conn)) = Inr md
     \<and> invokeRPC mapCode transport rt conn rpcName path req authToken appCheckToken =
        (snd (ensureActiveStub conn),
         Inr (UnaryCall stub rpcName (invokeRPC_jsonRequest conn req) md,
              (case transport (UnaryCall stub rpcName (invokeRPC_jsonRequest conn req) md) of
                 None \<Rightarrow> Pending
               | Some (grpcError, val) \<Rightarrow> invokeRPC_callback mapCode grpcError val)))"
proof -
  obtain stub conn' where e: "ensureActiveStub conn = (stub, conn')" by (metis surj_pair)
  then have p: "databasePath conn' = databasePath conn" "databaseInfo conn' = databaseInfo conn"
    using ensureActiveStub_databasePath[of conn] ensureActiveStub_databaseInfo[of conn] by simp_all
  obtain md where md: "createMetadata rt (databasePath conn) authToken appCheckToken
             (appId (databaseInfo conn)) = Inr md"
    using token_accepted_createMetadata[OF assms] by blast
  with e p show ?thesis
    by (simp add: invokeRPC_def invokeRPC_issue_def invokeRPC_jsonRequest_def)
qed

section \<open>Lemmas about the streaming call\<close>

lemma streaming_run_data:
  "streaming_run mapCode (map StreamData ms) st = st\<lparr>results := results st @ ms\<rparr>"
proof (induction ms arbitrary: st)
  case Nil
  show ?case by (simp add: streaming_run_def)
next
  case (Cons m ms)
  have "streaming_run mapCode (map StreamData (m # ms)) st
          = streaming_run mapCode (map StreamData ms) (st\<lparr>results := results st @ [m]\<rparr>)"
    by (simp add: streaming_run_def)
  then show ?case by (simp add: Cons.IH)
qed

lemma streaming_run_append:
  "streaming_run mapCode (evs @ evs') st = streaming_run mapCode evs' (streaming_run mapCode evs st)"
  by (simp add: streaming_run_def)

lemma streaming_run_Cons:
  "streaming_run mapCode (ev # evs) st = streaming_run mapCode evs (streaming_on mapCode ev st)"
  by (simp add: streaming_run_def)

lemma streaming_settled_stays:
  assumes "responseDeferred st \<noteq> Unsettled"
  shows "responseDeferred (streaming_run mapCode evs st) = responseDeferred st"
  using assms
proof (induction evs arbitrary: st)
  case Nil
  show ?case by (simp add: streaming_run_def)
next
  case (Cons ev evs)
  have "responseDeferred (streaming_on mapCode ev st) = responseDeferred st"
    using Cons.prems
    by (cases ev) (simp_all add: deferred_resolve_def deferred_reject_def split: deferred.splits)
  with Cons show ?case by (simp add: streaming_run_Cons)
qed

lemma streaming_results_without_data:
  assumes "list_all (\<lambda>ev. \<not> is_StreamData ev) evs"
  shows "results (streaming_run mapCode evs st) = results st"
  using assms
proof (induction evs arbitrary: st)
  case Nil
  show ?case by (simp add: streaming_run_def)
next
  case (Cons ev evs)
  then show ?case by (cases ev) (simp_all add: streaming_run_Cons)
qed

lemma streaming_ends:
  assumes "list_all (\<lambda>ev. \<not> is_StreamData ev) rest"
  shows "returned_promise (streaming_run mapCode (map StreamData ms @ StreamEnd # rest) streaming_start)
           = Resolved ms"
proof -
  let ?st = "streaming_on mapCode StreamEnd
               (streaming_run mapCode (map StreamData ms) streaming_start)"
  have d: "responseDeferred ?st = ResolvedWithResults" and r: "results ?st = ms"
    by (simp_all add: streaming_run_data streaming_start_def deferred_resolve_def)
  have "responseDeferred (streaming_run mapCode rest ?st) = ResolvedWithResults"
    using streaming_settled_stays[of ?st mapCode rest] d by simp
  moreover have "results (streaming_run mapCode rest ?st) = ms"
    using streaming_results_without_data[OF assms, of mapCode ?st] r by simp
  ultimately show ?thesis
    by (simp add: returned_promise_def streaming_run_append streaming_run_Cons)
qed

lemma streaming_fails:
  "returned_promise
     (streaming_run mapCode (map StreamData ms @ StreamError grpcError # rest) streaming_start)
   = Rejected (FirestoreError (mapCode (code grpcError)) (message grpcError))"
proof -
  let ?st = "streaming_on mapCode (StreamError grpcError)
               (streaming_run mapCode (map StreamData ms) streaming_start)"
  have d: "responseDeferred ?st
             = RejectedWith (FirestoreError (mapCode (code grpcError)) (message grpcError))"
    by (simp add: streaming_run_data streaming_start_def deferred_reject_def to_FirestoreError_def)
  have "responseDeferred (streaming_run mapCode rest ?st)
             = RejectedWith (FirestoreError (mapCode (code grpcError)) (message grpcError))"
    using streaming_settled_stays[of ?st mapCode rest] d by simp
  then show ?thesis
    by (simp add: returned_promise_def streaming_run_append streaming_run_Cons)
qed

lemma invokeStreamingRPC_returned:
  assumes "token_accepted authToken"
  shows "\<exists>call.
      issued (invokeStreamingRPC mapCode transport rt conn rpcName path req authToken appCheckToken)
        = [call]
    \<and> returned (invokeStreamingRPC mapCode transport rt conn rpcName path req authToken appCheckToken)
        = Some (returned_promise (streaming_run mapCode (transport call) streaming_start))"
proof -
  obtain stub conn' where e: "ensureActiveStub conn = (stub, conn')" by (metis surj_pair)
  obtain md where md: "createMetadata rt (databasePath conn') authToken appCheckToken
             (appId (databaseInfo conn')) = Inr md"
    using token_accepted_createMetadata[OF assms] by blast
  with e show ?thesis
    by (simp add: invokeStreamingRPC_def invokeStreamingRPC_issue_def issued_def returned_def)
qed

section \<open>Lemmas about the transaction runner\<close>

lemma runWithBackOff_bounds:
  assumes "n \<le> maxAttempts"
  shows "n \<le> fst (runWithBackOff maxAttempts attempt n s)
       \<and> fst (runWithBackOff maxAttempts attempt n s) \<le> maxAttempts"
  using assms
proof (induction maxAttempts attempt n s rule: runWithBackOff.induct)
  case (1 maxAttempts attempt n s)
  obtain out s' where a: "attempt n s = (out, s')" by (metis surj_pair)
  show ?case
  proof (cases out)
    case (Inr result)
    with a "1.prems" show ?thesis by (simp add: runWithBackOff.simps[of maxAttempts attempt n s])
  next
    case (Inl e)
    show ?thesis
    proof (cases e)
      case (Precondition_Conflict reason)
      show ?thesis
      proof (cases "n < maxAttempts")
        case True
        then have d: "after_conflict maxAttempts n reason = Retry (Suc n)"
          by (simp add: after_conflict_def)
        have "Suc n \<le> fst (runWithBackOff maxAttempts attempt (Suc n) s')
            \<and> fst (runWithBackOff maxAttempts attempt (Suc n) s') \<le> maxAttempts"
          using "1.IH"[OF a[symmetric] Inl Precondition_Conflict d] True by simp
        moreover have "runWithBackOff maxAttempts attempt n s
                         = runWithBackOff maxAttempts attempt (Suc n) s'"
          using a Inl Precondition_Conflict d
          by (simp add: runWithBackOff.simps[of maxAttempts attempt n s])
        ultimately show ?thesis by simp
      next
        case False
        then have "after_conflict maxAttempts n reason = Give_up (Aborted_Fatal reason)"
          by (simp add: after_conflict_def)
        with a Inl Precondition_Conflict "1.prems" show ?thesis
          by (simp add: runWithBackOff.simps[of maxAttempts attempt n s])
      qed
    next
      case (Transport_Failure reason)
      with a Inl "1.prems" show ?thesis
        by (simp add: runWithBackOff.simps[of maxAttempts attempt n s])
    next
      case (Programming_Error reason)
      with a Inl "1.prems" show ?thesis
        by (simp add: runWithBackOff.simps[of maxAttempts attempt n s])
    qed
  qed
qed

lemma runWithBackOff_conflicts:
  assumes "\<And>m t. \<exists>reason t'. attempt m t = (Inl (Precondition_Conflict reason), t')"
    and "n \<le> maxAttempts"
  shows "\<exists>reason s0 s'.
           runWithBackOff maxAttempts attempt n s = (maxAttempts, Inl (Aborted_Fatal reason), s')
         \<and> attempt maxAttempts s0 = (Inl (Precondition_Conflict reason), s')"
  using assms(2)
proof (induction "maxAttempts - n" arbitrary: n s)
  case 0
  then have n: "n = maxAttempts" by simp
  obtain reason s' where a: "attempt n s = (Inl (Precondition_Conflict reason), s')"
    using assms(1) by blast
  have "after_conflict maxAttempts n reason = Give_up (Aborted_Fatal reason)"
    using n by (simp add: after_conflict_def)
  with a have "runWithBackOff maxAttempts attempt n s = (n, Inl (Aborted_Fatal reason), s')"
    by (simp add: runWithBackOff.simps[of maxAttempts attempt n s])
  with a n show ?case by blast
next
  case (Suc d)
  then have lt: "n < maxAttempts" by simp
  obtain reason s' where a: "attempt n s = (Inl (Precondition_Conflict reason), s')"
    using assms(1) by blast
  have "after_conflict maxAttempts n reason = Retry (Suc n)"
    using lt by (simp add: after_conflict_def)
  with a have "runWithBackOff maxAttempts attempt n s = runWithBackOff maxAttempts attempt (Suc n) s'"
    by (simp add: runWithBackOff.simps[of maxAttempts attempt n s])
  moreover have "d = maxAttempts - Suc n" "Suc n \<le> maxAttempts" using Suc.hyps(2) lt by simp_all
  ultimately show ?case using Suc.hyps(1)[of "Suc n" s'] by simp
qed

lemma reads_twice_conflicts:
  "run_attempt (reads_twice docRef) n b =
     (Inl (Precondition_Conflict ''document version changed between two reads''),
      backend_write docRef (1234 + int n) b)"
  by (simp add: run_attempt_def reads_twice_def transaction_get_def new_transaction_def
        backend_write_def current_version_def Let_def)

section \<open>Lemmas about concurrent transactions\<close>

lemma increment_step_read:
  assumes "b docRef = Some \<lparr> version = v, payload = c \<rparr>"
  shows "increment_step maxAttempts docRef (Started a) b
           = (Reading a \<lparr> readVersions = [(docRef, v)], mutations = [] \<rparr> c, b)"
  using assms
  by (simp add: increment_step_def transaction_get_def new_transaction_def current_version_def)

lemma increment_step_commit:
  assumes "b docRef = Some \<lparr> version = v, payload = c \<rparr>"
  shows "increment_step maxAttempts docRef
           (Reading a \<lparr> readVersions = [(docRef, v)], mutations = [] \<rparr> c') b
           = (Committed, b(docRef \<mapsto> \<lparr> version = Suc v, payload = c' + 1 \<rparr>))"
  using assms
  by (simp add: increment_step_def transaction_commit_def transaction_set_def current_version_def
        backend_write_def)

lemma increment_step_conflict:
  assumes "b docRef = Some \<lparr> version = v, payload = c \<rparr>" and "v' \<noteq> v"
  shows "increment_step maxAttempts docRef
           (Reading a \<lparr> readVersions = [(docRef, v')], mutations = [] \<rparr> c') b
           = (if a < maxAttempts then Started (Suc a)
              else Aborted (Aborted_Fatal ''a document read by the transaction was changed''), b)"
  using assms
  by (simp add: increment_step_def transaction_commit_def transaction_set_def current_version_def
        after_conflict_def)

lemma filter_update_count:
  assumes "i < length xs"
  shows "length (filter P (xs[i := y])) + (if P (xs ! i) then 1 else 0)
           = length (filter P xs) + (if P y then 1 else 0)"
  using assms
proof (induction xs arbitrary: i)
  case Nil
  then show ?case by simp
next
  case (Cons x xs)
  show ?case
  proof (cases i)
    case 0
    then show ?thesis by simp
  next
    case (Suc j)
    with Cons.prems have "j < length xs" by simp
    from Cons.IH[OF this] Suc show ?thesis by simp
  qed
qed

lemma runner_ok_mono:
  assumes "runner_ok docRef v0 c0 k r" and "k \<le> k'"
  shows "runner_ok docRef v0 c0 k' r"
proof (cases r)
  case (Started a)
  with assms show ?thesis by simp
next
  case (Reading a txn c)
  with assms obtain j where "j \<le> k" "1 \<le> a"
      "txn = \<lparr> readVersions = [(docRef, v0 + j)], mutations = [] \<rparr>" "c = c0 + int j" "a \<le> j + 1"
    by auto
  with assms(2) Reading show ?thesis by (auto intro!: exI[of _ j])
next
  case Committed
  then show ?thesis by simp
next
  case (Aborted e)
  with assms show ?thesis by simp
qed

lemma list_all_update:
  assumes "list_all Q xs" and "Q y"
  shows "list_all Q (xs[i := y])"
  using assms set_update_subset_insert[of xs i y] by (auto simp: list_all_iff)

lemma committed_update:
  assumes "i < length (runners w)" and "runners w ! i \<noteq> Committed"
  shows "committed (w\<lparr>runners := (runners w)[i := r]\<rparr>)
           = committed w + (if r = Committed then 1 else 0)"
  using filter_update_count[OF assms(1), of "\<lambda>r. r = Committed" r] assms(2)
  by (simp add: committed_def)

lemma committed_less:
  assumes "i < length (runners w)" and "runners w ! i \<noteq> Committed"
  shows "committed w < length (runners w)"
  unfolding committed_def
  using assms by (intro length_filter_less[of "runners w ! i"]) simp_all

lemma chain_inv_step:
  assumes "n \<le> maxAttempts" and "chain_inv docRef v0 c0 n w"
  shows "chain_inv docRef v0 c0 n (step maxAttempts docRef i w)"
proof (cases "i < length (runners w)")
  case False
  with assms(2) show ?thesis by (simp add: step_def)
next
  case True
  let ?k = "committed w"
  from assms(2) have len: "length (runners w) = n"
    and b: "backend w docRef = Some \<lparr> version = v0 + ?k, payload = c0 + int ?k \<rparr>"
    and ok: "list_all (runner_ok docRef v0 c0 ?k) (runners w)"
    by (simp_all add: chain_inv_def)
  from ok True have ri: "runner_ok docRef v0 c0 ?k (runners w ! i)"
    by (simp add: list_all_length)
  show ?thesis
  proof (cases "runners w ! i")
    case (Started a)
    let ?r = "Reading a \<lparr> readVersions = [(docRef, v0 + ?k)], mutations = [] \<rparr> (c0 + int ?k)"
    have s: "step maxAttempts docRef i w = w\<lparr>runners := (runners w)[i := ?r]\<rparr>"
      using True Started increment_step_read[where b = "backend w" and docRef = docRef, OF b] by (simp add: step_def)
    have k: "committed (w\<lparr>runners := (runners w)[i := ?r]\<rparr>) = ?k"
      using committed_update[OF True, of ?r] Started by simp
    have "runner_ok docRef v0 c0 ?k ?r" using ri Started by simp
    with ok have "list_all (runner_ok docRef v0 c0 ?k) ((runners w)[i := ?r])"
      by (rule list_all_update)
    with len b k show ?thesis by (simp add: s chain_inv_def)
  next
    case (Reading a txn c)
    with ri obtain j where j: "j \<le> ?k" "1 \<le> a"
        "txn = \<lparr> readVersions = [(docRef, v0 + j)], mutations = [] \<rparr>" "c = c0 + int j"
        "a \<le> j + 1"
      by auto
    show ?thesis
    proof (cases "j = ?k")
      case True
      let ?b = "(backend w)(docRef \<mapsto> \<lparr> version = Suc (v0 + ?k), payload = c0 + int ?k + 1 \<rparr>)"
      have s: "step maxAttempts docRef i w = \<lparr> backend = ?b, runners = (runners w)[i := Committed] \<rparr>"
        using \<open>i < length (runners w)\<close> Reading j(3,4) True increment_step_commit[where b = "backend w" and docRef = docRef, OF b]
        by (simp add: step_def)
      have "committed (w\<lparr>runners := (runners w)[i := Committed]\<rparr>) = ?k + 1"
        using committed_update[OF \<open>i < length (runners w)\<close>, of Committed] Reading by simp
      then have k: "committed \<lparr> backend = ?b, runners = (runners w)[i := Committed] \<rparr> = ?k + 1"
        by (simp add: committed_def)
      have "list_all (runner_ok docRef v0 c0 (?k + 1)) (runners w)"
        using ok runner_ok_mono[of docRef v0 c0 ?k _ "?k + 1"] by (auto simp: list_all_iff)
      then have "list_all (runner_ok docRef v0 c0 (?k + 1)) ((runners w)[i := Committed])"
        by (rule list_all_update) simp
      with len k show ?thesis by (simp add: s chain_inv_def)
    next
      case False
      with j(1) have lt: "j < ?k" by simp
      have "?k < n"
        using committed_less[OF \<open>i < length (runners w)\<close>] Reading len by simp
      with lt j(5) assms(1) have a: "a < maxAttempts" by simp
      have ne: "v0 + j \<noteq> v0 + ?k" using lt by simp
      let ?r = "Started (Suc a) :: ('a, int) runner_state"
      have s: "step maxAttempts docRef i w = w\<lparr>runners := (runners w)[i := ?r]\<rparr>"
        using \<open>i < length (runners w)\<close> Reading j(3) a increment_step_conflict[where b = "backend w" and docRef = docRef, OF b ne]
        by (simp add: step_def)
      have k: "committed (w\<lparr>runners := (runners w)[i := ?r]\<rparr>) = ?k"
        using committed_update[OF \<open>i < length (runners w)\<close>, of ?r] Reading by simp
      have "runner_ok docRef v0 c0 ?k ?r" using lt j(5) by simp
      with ok have "list_all (runner_ok docRef v0 c0 ?k) ((runners w)[i := ?r])"
        by (rule list_all_update)
      with len b k show ?thesis by (simp add: s chain_inv_def)
    qed
  next
    case Committed
    then have "step maxAttempts docRef i w = w"
      using True by (simp add: step_def increment_step_def list_update_same_conv)
    with assms(2) show ?thesis by simp
  next
    case (Aborted e)
    with ri show ?thesis by simp
  qed
qed

lemma chain_inv_run:
  assumes "n \<le> maxAttempts" and "chain_inv docRef v0 c0 n w"
  shows "chain_inv docRef v0 c0 n (run_schedule maxAttempts docRef sched w)"
  using assms(2)
proof (induction sched arbitrary: w)
  case Nil
  then show ?case by (simp add: run_schedule_def)
next
  case (Cons i sched)
  have "run_schedule maxAttempts docRef (i # sched) w
          = run_schedule maxAttempts docRef sched (step maxAttempts docRef i w)"
    by (simp add: run_schedule_def)
  with Cons.IH[OF chain_inv_step[OF assms(1) Cons.prems]] show ?case by simp
qed

lemma chain_inv_launch:
  assumes "b docRef = Some \<lparr> version = v0, payload = c0 \<rparr>"
  shows "chain_inv docRef v0 c0 n (launch n b)"
  using assms by (simp add: chain_inv_def launch_def committed_def list_all_iff)

lemma step_length [simp]:
  "length (runners (step maxAttempts docRef i w)) = length (runners w)"
  by (simp add: step_def split: prod.splits)

lemma step_other:
  assumes "j \<noteq> i"
  shows "runners (step maxAttempts docRef i w) ! j = runners w ! j"
  using assms by (simp add: step_def split: prod.splits)

lemma increment_step_steps_left:
  "steps_left maxAttempts (fst (increment_step maxAttempts docRef r b))
     \<le> steps_left maxAttempts r - 1"
proof (cases r)
  case (Started a)
  then show ?thesis
    by (auto simp: increment_step_def split: sum.splits option.splits prod.splits)
next
  case (Reading a txn c)
  then show ?thesis
    by (auto simp: increment_step_def after_conflict_def
          split: sum.splits attempt_error.splits if_splits)
next
  case Committed
  then show ?thesis by (simp add: increment_step_def)
next
  case (Aborted e)
  then show ?thesis by (simp add: increment_step_def)
qed

lemma step_steps_left:
  assumes "i < length (runners w)"
  shows "steps_left maxAttempts (runners (step maxAttempts docRef i w) ! i)
           \<le> steps_left maxAttempts (runners w ! i) - 1"
proof -
  obtain r' b' where s: "increment_step maxAttempts docRef (runners w ! i) (backend w) = (r', b')"
    by (metis surj_pair)
  with assms have "runners (step maxAttempts docRef i w) ! i = r'"
    by (simp add: step_def)
  with increment_step_steps_left[of maxAttempts docRef "runners w ! i" "backend w"] s
  show ?thesis by simp
qed

lemma run_schedule_Cons:
  "run_schedule maxAttempts docRef (i # sched) w
     = run_schedule maxAttempts docRef sched (step maxAttempts docRef i w)"
  by (simp add: run_schedule_def)

lemma run_schedule_length [simp]:
  "length (runners (run_schedule maxAttempts docRef sched w)) = length (runners w)"
  by (induction sched arbitrary: w) (simp_all add: run_schedule_Cons, simp add: run_schedule_def)

lemma run_steps_left:
  assumes "i < length (runners w)"
  shows "steps_left maxAttempts (runners (run_schedule maxAttempts docRef sched w) ! i)
           \<le> steps_left maxAttempts (runners w ! i) - count_list sched i"
  using assms
proof (induction sched arbitrary: w)
  case Nil
  then show ?case by (simp add: run_schedule_def)
next
  case (Cons j sched)
  let ?w = "step maxAttempts docRef j w"
  have len: "i < length (runners ?w)" using Cons.prems by simp
  have ih: "steps_left maxAttempts (runners (run_schedule maxAttempts docRef sched ?w) ! i)
           \<le> steps_left maxAttempts (runners ?w ! i) - count_list sched i"
    by (rule Cons.IH[OF len])
  show ?case
  proof (cases "j = i")
    case True
    have "steps_left maxAttempts (runners ?w ! i) \<le> steps_left maxAttempts (runners w ! i) - 1"
      using step_steps_left[OF Cons.prems] True by simp
    with ih True show ?thesis by (simp add: run_schedule_Cons)
  next
    case False
    then have "runners ?w ! i = runners w ! i" by (simp add: step_other)
    with ih False show ?thesis by (simp add: run_schedule_Cons)
  qed
qed

lemma reads_before_gate:
  assumes "b docRef = Some \<lparr> version = v0, payload = c0 \<rparr>" and "m \<le> n"
  shows "run_schedule maxAttempts docRef [0..<m] (launch n b)
           = \<lparr> backend = b,
               runners = replicate m (Reading 1 \<lparr> readVersions = [(docRef, v0)], mutations = [] \<rparr> c0)
                         @ replicate (n - m) (Started 1) \<rparr>"
  using assms(2)
proof (induction m)
  case 0
  show ?case by (simp add: run_schedule_def launch_def)
next
  case (Suc m)
  let ?r = "Reading 1 \<lparr> readVersions = [(docRef, v0)], mutations = [] \<rparr> c0 :: ('a, int) runner_state"
  let ?w = "\<lparr> backend = b, runners = replicate m ?r @ replicate (n - m) (Started 1) \<rparr>"
  have w: "run_schedule maxAttempts docRef [0..<m] (launch n b) = ?w"
    using Suc by simp
  have n: "n - m = Suc (n - Suc m)" using Suc.prems by simp
  have "run_schedule maxAttempts docRef [0..<Suc m] (launch n b) = step maxAttempts docRef m ?w"
    by (simp add: run_schedule_def w[unfolded run_schedule_def])
  also have "\<dots> = \<lparr> backend = b, runners = replicate m ?r @ ?r # replicate (n - Suc m) (Started 1) \<rparr>"
    using increment_step_read[where b = b and docRef = docRef, OF assms(1)]
    by (simp add: step_def n nth_append list_update_append)
  also have "replicate m ?r @ ?r # replicate (n - Suc m) (Started 1)
               = replicate (Suc m) ?r @ replicate (n - Suc m) (Started 1)"
    by (simp add: replicate_app_Cons_same)
  finally show ?case .
qed

lemma at_gate_all_read:
  assumes "b docRef = Some \<lparr> version = v0, payload = c0 \<rparr>"
  shows "at_gate maxAttempts docRef n b
           = \<lparr> backend = b,
               runners = replicate n (Reading 1 \<lparr> readVersions = [(docRef, v0)], mutations = [] \<rparr> c0) \<rparr>"
  using reads_before_gate[where b = b and docRef = docRef and m = n and n = n, OF assms]
  by (simp add: at_gate_def)

section \<open>Lemmas about the change buffer\<close>

lemma map_of_put_change:
  "map_of (put_change k d chs) = (map_of chs)(k \<mapsto> d)"
  by (induction chs) (auto simp: fun_eq_iff)

lemma keys_put_change:
  "fst ` set (put_change k d chs) = insert k (fst ` set chs)"
proof -
  have "dom (map_of (put_change k d chs)) = dom ((map_of chs)(k \<mapsto> d))"
    by (simp only: map_of_put_change)
  then show ?thesis by (simp add: dom_map_of_conv_image_fst)
qed

lemma distinct_put_change:
  "distinct (map fst chs) \<Longrightarrow> distinct (map fst (put_change k d chs))"
proof (induction chs)
  case Nil
  show ?case by simp
next
  case (Cons ch chs)
  obtain k' d' where ch: "ch = (k', d')" by (cases ch)
  show ?case
  proof (cases "k' = k")
    case True
    with Cons.prems ch show ?thesis by simp
  next
    case False
    have "k' \<notin> fst ` set (put_change k d chs)"
      using Cons.prems ch False by (simp add: keys_put_change)
    with Cons ch False show ?thesis by simp
  qed
qed

lemma buffer_getEntry_reads:
  assumes "buffer_getEntry c k buf = (d, buf')"
  shows "changes buf' = changes buf"
    and "prior_reads buf' = prior_reads buf \<or> 
         (prior_reads buf k = None \<and> prior_reads buf' = (prior_reads buf)(k \<mapsto> entries c k))"
    and "map_of (changes buf) k = None \<Longrightarrow> prior_reads buf' k \<noteq> None"
  using assms
  by (auto simp: buffer_getEntry_def split: option.splits)

lemma newChangeBuffer_consistent:
  "buffer_consistent c (newChangeBuffer track)"
  by (simp add: buffer_consistent_def newChangeBuffer_def)

lemma buffer_consistentI:
  assumes "distinct (map fst (changes buf))"
    and "\<And>k. k \<in> fst ` set (changes buf) \<Longrightarrow> prior_reads buf k \<noteq> None"
    and "\<And>k prior. prior_reads buf k = Some prior \<Longrightarrow> prior = entries c k"
  shows "buffer_consistent c buf"
  unfolding buffer_consistent_def using assms by blast

lemma buffer_consistentD:
  assumes "buffer_consistent c buf"
  shows "distinct (map fst (changes buf))"
    and "k \<in> fst ` set (changes buf) \<Longrightarrow> prior_reads buf k \<noteq> None"
    and "prior_reads buf k = Some prior \<Longrightarrow> prior = entries c k"
  using assms unfolding buffer_consistent_def by blast+

lemma buffer_getEntry_consistent:
  assumes "buffer_consistent c buf"
  shows "buffer_consistent c (snd (buffer_getEntry c k buf))"
    and "prior_reads (snd (buffer_getEntry c k buf)) k \<noteq> None"
    and "prior_reads buf k' \<noteq> None \<Longrightarrow> prior_reads (snd (buffer_getEntry c k buf)) k' \<noteq> None"
proof -
  obtain d buf' where g: "buffer_getEntry c k buf = (d, buf')" by (metis surj_pair)
  note r = buffer_getEntry_reads[OF g]
  note D = buffer_consistentD[OF assms]
  have "buffer_consistent c buf'"
  proof (rule buffer_consistentI)
    show "distinct (map fst (changes buf'))" using r(1) D(1) by simp
  next
    fix x assume "x \<in> fst ` set (changes buf')"
    then have "prior_reads buf x \<noteq> None" using r(1) D(2) by simp
    with r(2) show "prior_reads buf' x \<noteq> None" by auto
  next
    fix x prior assume p: "prior_reads buf' x = Some prior"
    from r(2) show "prior = entries c x"
    proof
      assume "prior_reads buf' = prior_reads buf"
      with p D(3) show ?thesis by simp
    next
      assume a: "prior_reads buf k = None \<and> prior_reads buf' = (prior_reads buf)(k \<mapsto> entries c k)"
      show ?thesis
      proof (cases "x = k")
        case True
        with a p show ?thesis by simp
      next
        case False
        with a p have "prior_reads buf x = Some prior" by simp
        then show ?thesis by (rule D(3))
      qed
    qed
  qed
  then show "buffer_consistent c (snd (buffer_getEntry c k buf))" by (simp add: g)
  show "prior_reads (snd (buffer_getEntry c k buf)) k \<noteq> None"
  proof (cases "map_of (changes buf) k")
    case None
    with r(3) g show ?thesis by simp
  next
    case (Some d0)
    then have "(k, d0) \<in> set (changes buf)" by (rule map_of_SomeD)
    then have "k \<in> fst ` set (changes buf)" by force
    then have "prior_reads buf k \<noteq> None" by (rule D(2))
    moreover have "buf' = buf" using g Some by (simp add: buffer_getEntry_def)
    ultimately show ?thesis using g by simp
  qed
  show "prior_reads (snd (buffer_getEntry c k buf)) k' \<noteq> None" if "prior_reads buf k' \<noteq> None"
    using that r(2) g by auto
qed

lemma buffer_getEntries_consistent:
  assumes "buffer_consistent c buf"
  shows "buffer_consistent c (snd (buffer_getEntries c ks buf))
       \<and> (\<forall>k\<in>set ks. prior_reads (snd (buffer_getEntries c ks buf)) k \<noteq> None)
       \<and> (\<forall>k. prior_reads buf k \<noteq> None \<longrightarrow> prior_reads (snd (buffer_getEntries c ks buf)) k \<noteq> None)"
  using assms
proof (induction ks arbitrary: buf)
  case Nil
  then show ?case by simp
next
  case (Cons k ks)
  let ?b = "snd (buffer_getEntry c k buf)"
  have s: "snd (buffer_getEntries c (k # ks) buf) = snd (buffer_getEntries c ks ?b)"
    by (simp split: prod.splits)
  note g = buffer_getEntry_consistent[OF Cons.prems, where k = k]
  note ih = Cons.IH[OF g(1)]
  have 1: "buffer_consistent c (snd (buffer_getEntries c ks ?b))" using ih by simp
  have 2: "prior_reads (snd (buffer_getEntries c ks ?b)) k' \<noteq> None" if "k' \<in> set (k # ks)" for k'
  proof (cases "k' \<in> set ks")
    case True
    with ih show ?thesis by simp
  next
    case False
    with that have "k' = k" by simp
    with g(2) ih show ?thesis by simp
  qed
  have 3: "prior_reads (snd (buffer_getEntries c ks ?b)) k' \<noteq> None" if "prior_reads buf k' \<noteq> None" for k'
    using g(3)[OF that] ih by simp
  from 1 2 3 show ?case unfolding s by simp
qed

lemma buffer_addEntry_read:
  assumes "buffer_consistent c buf" and "prior_reads buf (doc_key d) \<noteq> None"
  shows "\<exists>buf'. buffer_addEntry d buf = Inr buf' \<and> buffer_consistent c buf'
           \<and> prior_reads buf' = prior_reads buf"
proof -
  let ?b = "buf\<lparr>changes := put_change (doc_key d) d (changes buf)\<rparr>"
  note D = buffer_consistentD[OF assms(1)]
  have "buffer_addEntry d buf = Inr ?b"
    using assms(2) by (auto simp: buffer_addEntry_def)
  moreover have "buffer_consistent c ?b"
  proof (rule buffer_consistentI)
    show "distinct (map fst (changes ?b))" using D(1) by (simp add: distinct_put_change)
  next
    fix x assume "x \<in> fst ` set (changes ?b)"
    then have "x = doc_key d \<or> x \<in> fst ` set (changes buf)" by (simp add: keys_put_change)
    then show "prior_reads ?b x \<noteq> None" using assms(2) D(2) by auto
  next
    fix x prior assume "prior_reads ?b x = Some prior"
    then show "prior = entries c x" using D(3) by simp
  qed
  ultimately show ?thesis by simp
qed

lemma add_all_read:
  assumes "buffer_consistent c buf" and "\<forall>d\<in>set ds. prior_reads buf (doc_key d) \<noteq> None"
  shows "\<exists>buf'. add_all ds buf = Inr buf' \<and> buffer_consistent c buf'"
  using assms
proof (induction ds arbitrary: buf)
  case Nil
  then show ?case by simp
next
  case (Cons d ds)
  from buffer_addEntry_read[OF Cons.prems(1), of d] Cons.prems(2)
  obtain buf' where a: "buffer_addEntry d buf = Inr buf'" "buffer_consistent c buf'"
      "prior_reads buf' = prior_reads buf"
    by auto
  with Cons.prems(2) have "\<forall>d\<in>set ds. prior_reads buf' (doc_key d) \<noteq> None" by simp
  from Cons.IH[OF a(2) this] a(1) show ?case by simp
qed

lemma apply_change_in_sync:
  assumes "in_sync sizeOf c" and "prior_reads buf k = Some (entries c k)"
  shows "in_sync sizeOf (apply_change sizeOf buf (k, d) c)"
proof -
  let ?c = "apply_change sizeOf buf (k, d) c"
  let ?A = "dom (entries c)"
  from assms(1) have fin: "finite ?A"
    and sz: "byte_size c = (\<Sum>x\<in>?A. stored_size sizeOf c x)"
    by (simp_all add: in_sync_def getSize_def)
  have e: "entries ?c = (entries c)(k \<mapsto> d)" by (simp add: apply_change_def)
  have p: "prior_size sizeOf (prior_reads buf k) = stored_size sizeOf c k"
    using assms(2) by (simp add: prior_size_def stored_size_def split: option.splits)
  have b: "byte_size ?c = byte_size c + int (sizeOf d) - stored_size sizeOf c k"
    by (simp add: apply_change_def p)
  have rest: "(\<Sum>x\<in>?A - {k}. stored_size sizeOf ?c x) = (\<Sum>x\<in>?A - {k}. stored_size sizeOf c x)"
    by (rule sum.cong) (simp_all add: stored_size_def e)
  have old: "(\<Sum>x\<in>?A. stored_size sizeOf c x)
               = stored_size sizeOf c k + (\<Sum>x\<in>?A - {k}. stored_size sizeOf c x)"
  proof (cases "k \<in> ?A")
    case True
    with fin show ?thesis by (simp add: sum.remove)
  next
    case False
    then have "stored_size sizeOf c k = 0" by (auto simp: stored_size_def split: option.splits)
    with False show ?thesis by simp
  qed
  have "dom (entries ?c) = insert k ?A" by (simp add: e)
  then have "(\<Sum>x\<in>dom (entries ?c). stored_size sizeOf ?c x)
               = stored_size sizeOf ?c k + (\<Sum>x\<in>?A - {k}. stored_size sizeOf ?c x)"
    using fin by (simp add: sum.insert_remove)
  also have "stored_size sizeOf ?c k = int (sizeOf d)" by (simp add: stored_size_def e)
  finally have "(\<Sum>x\<in>dom (entries ?c). stored_size sizeOf ?c x) = byte_size ?c"
    using rest old sz b by simp
  moreover have "finite (dom (entries ?c))" using fin by (simp add: e)
  ultimately show ?thesis by (simp add: in_sync_def getSize_def)
qed

lemma fold_apply_in_sync:
  assumes "distinct (map fst chs)"
    and "\<forall>k\<in>fst ` set chs. prior_reads buf k = Some (entries c k)"
    and "in_sync sizeOf c"
  shows "in_sync sizeOf (fold (apply_change sizeOf buf) chs c)"
  using assms
proof (induction chs arbitrary: c)
  case Nil
  then show ?case by simp
next
  case (Cons ch chs)
  obtain k d where ch: "ch = (k, d)" by (cases ch)
  let ?c = "apply_change sizeOf buf (k, d) c"
  have 1: "in_sync sizeOf ?c"
    using Cons.prems(2,3) ch by (intro apply_change_in_sync) simp_all
  have 2: "\<forall>k'\<in>fst ` set chs. prior_reads buf k' = Some (entries ?c k')"
  proof
    fix k' assume k': "k' \<in> fst ` set chs"
    with Cons.prems(1) ch have "k' \<noteq> k" by auto
    then have "entries ?c k' = entries c k'" by (simp add: apply_change_def)
    moreover have "prior_reads buf k' = Some (entries c k')" using Cons.prems(2) k' by auto
    ultimately show "prior_reads buf k' = Some (entries ?c k')" by simp
  qed
  have 3: "distinct (map fst chs)" using Cons.prems(1) by simp
  from Cons.IH[OF 3 2 1] ch show ?case by simp
qed

lemma buffer_apply_in_sync:
  assumes "buffer_consistent c buf" and "in_sync sizeOf c"
  shows "in_sync sizeOf (buffer_apply sizeOf buf c)"
proof -
  note D = buffer_consistentD[OF assms(1)]
  have p: "\<forall>k\<in>fst ` set (changes buf). prior_reads buf k = Some (entries c k)"
  proof
    fix k assume "k \<in> fst ` set (changes buf)"
    then have "prior_reads buf k \<noteq> None" by (rule D(2))
    then obtain prior where p: "prior_reads buf k = Some prior" by blast
    with D(3) show "prior_reads buf k = Some (entries c k)" by simp
  qed
  from D(1) p assms(2) show ?thesis
    unfolding buffer_apply_def by (rule fold_apply_in_sync)
qed

lemma addEntries_succeeds:
  "\<exists>c'. addEntries sizeOf documents c = Inr c' \<and> (in_sync sizeOf c \<longrightarrow> in_sync sizeOf c')"
proof -
  let ?b = "snd (buffer_getEntries c (map doc_key documents) (newChangeBuffer False))"
  from buffer_getEntries_consistent[OF newChangeBuffer_consistent, of c "map doc_key documents" False]
  have cons: "buffer_consistent c ?b"
    and rd: "\<forall>d\<in>set documents. prior_reads ?b (doc_key d) \<noteq> None"
    by auto
  from add_all_read[OF cons rd]
  obtain buf' where a: "add_all documents ?b = Inr buf'" "buffer_consistent c buf'" by blast
  have "addEntries sizeOf documents c = Inr (buffer_apply sizeOf buf' c)"
    using a(1) by (simp add: addEntries_def Let_def)
  with buffer_apply_in_sync[OF a(2)] show ?thesis by simp
qed

lemma addEntries_size_example:
  "map_sum id getSize
     (addEntries payload_length
        [\<lparr> doc_key = ''rooms/a'', read_time = 3, doc_state = Found, contents = Some ''abc'' \<rparr>,
         \<lparr> doc_key = ''rooms/b'', read_time = 4, doc_state = Found, contents = Some ''de'' \<rparr>,
         \<lparr> doc_key = ''rooms/a'', read_time = 5, doc_state = Found, contents = Some ''a'' \<rparr>]
        \<lparr> entries = [''rooms/a'' \<mapsto>
                        \<lparr> doc_key = ''rooms/a'', read_time = 1, doc_state = Found,
                          contents = Some ''abcdefgh'' \<rparr>],
          byte_size = 8 \<rparr>)
   = Inr 3"
  by code_simp

section \<open>The claims\<close>

text \<open>
  C1. For every transaction run by the transaction runner with a maximum of at least one
  attempt, the number of attempts never exceeds the maximum. If every attempt fails with
  a read-version conflict, the runner makes exactly the maximum number of attempts and
  then surfaces one terminal abort, with the code \<open>aborted\<close>, that carries the reason of
  the conflict of the last attempt; it does not retry forever (the runner is a total
  function). The witness is the transaction of the integration test that reads a
  document twice with different versions.
\<close>

theorem retries_never_exceed_maximum:
  fixes attempt :: "('s, 'a) attempt_fn"
  assumes "1 \<le> maxAttempts"
  shows "fst (transaction_runner maxAttempts attempt s) \<le> maxAttempts
       \<and> ((\<forall>n t. \<exists>reason t'. attempt n t = (Inl (Precondition_Conflict reason), t')) \<longrightarrow>
            (\<exists>reason s0 s'.
                transaction_runner maxAttempts attempt s
                  = (maxAttempts, Inl (Aborted_Fatal reason), s')
              \<and> attempt maxAttempts s0 = (Inl (Precondition_Conflict reason), s')
              \<and> error_code (Aborted_Fatal reason) = Some ''aborted''))"
proof (intro conjI impI)
  show "fst (transaction_runner maxAttempts attempt s) \<le> maxAttempts"
    using runWithBackOff_bounds[OF assms, where attempt = attempt and s = s] by (simp add: transaction_runner_def)
next
  assume "\<forall>n t. \<exists>reason t'. attempt n t = (Inl (Precondition_Conflict reason), t')"
  then have "\<And>m t. \<exists>reason t'. attempt m t = (Inl (Precondition_Conflict reason), t')"
    by blast
  from runWithBackOff_conflicts[OF this assms, where s = s]
  show "\<exists>reason s0 s'.
                transaction_runner maxAttempts attempt s
                  = (maxAttempts, Inl (Aborted_Fatal reason), s')
              \<and> attempt maxAttempts s0 = (Inl (Precondition_Conflict reason), s')
              \<and> error_code (Aborted_Fatal reason) = Some ''aborted''"
    by (simp add: transaction_runner_def)
qed

theorem retries_never_exceed_maximum_witness:
  "1 \<le> DEFAULT_MAX_ATTEMPTS_COUNT
   \<and> fst (transaction_runner DEFAULT_MAX_ATTEMPTS_COUNT (run_attempt (reads_twice ''counters/doc''))
            [''counters/doc'' \<mapsto> \<lparr> version = 1, payload = 15 \<rparr>])
       = DEFAULT_MAX_ATTEMPTS_COUNT
   \<and> fst (snd (transaction_runner DEFAULT_MAX_ATTEMPTS_COUNT
                  (run_attempt (reads_twice ''counters/doc''))
                  [''counters/doc'' \<mapsto> \<lparr> version = 1, payload = 15 \<rparr>]))
       = Inl (Aborted_Fatal ''document version changed between two reads'')
   \<and> map_option payload
        (snd (snd (transaction_runner DEFAULT_MAX_ATTEMPTS_COUNT
                     (run_attempt (reads_twice ''counters/doc''))
                     [''counters/doc'' \<mapsto> \<lparr> version = 1, payload = 15 \<rparr>])) ''counters/doc'')
       = Some (1234 + int DEFAULT_MAX_ATTEMPTS_COUNT)"
proof -
  let ?attempt = "run_attempt (reads_twice ''counters/doc'') :: ((string, int) backend, unit) attempt_fn"
  let ?b = "[''counters/doc'' \<mapsto> \<lparr> version = 1, payload = 15 :: int \<rparr>]"
  have m: "1 \<le> DEFAULT_MAX_ATTEMPTS_COUNT" by (simp add: DEFAULT_MAX_ATTEMPTS_COUNT_def)
  have c: "\<forall>n t. \<exists>reason t'. ?attempt n t = (Inl (Precondition_Conflict reason), t')"
    by (simp add: reads_twice_conflicts)
  from retries_never_exceed_maximum [OF m, where attempt = ?attempt and s = ?b] c
  obtain reason s0 s' where
    r: "transaction_runner DEFAULT_MAX_ATTEMPTS_COUNT ?attempt ?b
          = (DEFAULT_MAX_ATTEMPTS_COUNT, Inl (Aborted_Fatal reason), s')"
    and l: "?attempt DEFAULT_MAX_ATTEMPTS_COUNT s0 = (Inl (Precondition_Conflict reason), s')"
    by blast
  from l have "reason = ''document version changed between two reads''"
    and "s' = backend_write ''counters/doc'' (1234 + int DEFAULT_MAX_ATTEMPTS_COUNT) s0"
    by (simp_all add: reads_twice_conflicts)
  with r m show ?thesis by (simp add: backend_write_def)
qed

text \<open>
  C2. As stated, for any number of concurrent transactions, the claim fails: retries are
  bounded (C1), and with one transaction more than the maximum number of attempts the
  worst schedule of commits exhausts the attempts of the last transaction. With a
  maximum of five attempts and six transactions that start from the value 5, five commit,
  the sixth ends in the terminal abort, and the final value is 10.
\<close>

theorem sixth_transaction_aborts_counterexample:
  "DEFAULT_MAX_ATTEMPTS_COUNT = 5
   \<and> runners (run_schedule DEFAULT_MAX_ATTEMPTS_COUNT ''counters/doc'' worst_case
        (at_gate DEFAULT_MAX_ATTEMPTS_COUNT ''counters/doc'' 6
           [''counters/doc'' \<mapsto> \<lparr> version = 1, payload = 5 \<rparr>]))
     = [Committed, Committed, Committed, Committed, Committed,
        Aborted (Aborted_Fatal ''a document read by the transaction was changed'')]
   \<and> map_option payload
        (backend (run_schedule DEFAULT_MAX_ATTEMPTS_COUNT ''counters/doc'' worst_case
           (at_gate DEFAULT_MAX_ATTEMPTS_COUNT ''counters/doc'' 6
              [''counters/doc'' \<mapsto> \<lparr> version = 1, payload = 5 \<rparr>])) ''counters/doc'')
     = Some 10"
  by code_simp

text \<open>
  C2, amended. For \<open>n\<close> concurrent transactions, \<open>n\<close> at most the maximum number of
  attempts, that each read the same counter document and then, after the gate has been
  released, write the value they read plus one: at the gate every transaction holds the
  starting value; under every schedule no transaction ends in the terminal abort and the
  committed value is the starting value plus the number of transactions committed so far
  (a linear chain of increments); and under every schedule that gives each transaction
  enough turns, all \<open>n\<close> transactions commit and the final value is the starting value
  plus \<open>n\<close>. A transaction whose commit finds its read version changed starts a new
  attempt. The witness is the test: three transactions from the value 5 end at 8.
\<close>

theorem concurrent_increments_commit:
  assumes "n \<le> maxAttempts" and "b docRef = Some \<lparr> version = v0, payload = c0 \<rparr>"
  shows "runners (at_gate maxAttempts docRef n b)
           = replicate n (Reading 1 \<lparr> readVersions = [(docRef, v0)], mutations = [] \<rparr> c0)
       \<and> (\<forall>e. Aborted e \<notin> set (runners (run_schedule maxAttempts docRef sched
                                          (at_gate maxAttempts docRef n b))))
       \<and> backend (run_schedule maxAttempts docRef sched (at_gate maxAttempts docRef n b)) docRef
           = Some \<lparr> version = v0 + committed (run_schedule maxAttempts docRef sched
                                                (at_gate maxAttempts docRef n b)),
                    payload = c0 + int (committed (run_schedule maxAttempts docRef sched
                                                    (at_gate maxAttempts docRef n b))) \<rparr>
       \<and> ((\<forall>i<n. 2 * maxAttempts \<le> count_list sched i) \<longrightarrow>
             runners (run_schedule maxAttempts docRef sched (at_gate maxAttempts docRef n b))
               = replicate n Committed
           \<and> backend (run_schedule maxAttempts docRef sched (at_gate maxAttempts docRef n b)) docRef
               = Some \<lparr> version = v0 + n, payload = c0 + int n \<rparr>)"
proof -
  let ?g = "at_gate maxAttempts docRef n b"
  let ?w = "run_schedule maxAttempts docRef sched ?g"
  have gate: "runners ?g
           = replicate n (Reading 1 \<lparr> readVersions = [(docRef, v0)], mutations = [] \<rparr> c0)"
    by (simp add: at_gate_all_read[where b = b and docRef = docRef, OF assms(2)])
  have "chain_inv docRef v0 c0 n ?g"
    unfolding at_gate_def
    by (intro chain_inv_run[OF assms(1)] chain_inv_launch[where b = b and docRef = docRef, OF assms(2)])
  then have inv: "chain_inv docRef v0 c0 n ?w"
    by (rule chain_inv_run[OF assms(1)])
  then have len: "length (runners ?w) = n"
    and bk: "backend ?w docRef
               = Some \<lparr> version = v0 + committed ?w, payload = c0 + int (committed ?w) \<rparr>"
    and ok: "list_all (runner_ok docRef v0 c0 (committed ?w)) (runners ?w)"
    by (simp_all add: chain_inv_def)
  have na: "Aborted e \<notin> set (runners ?w)" for e
    using ok by (auto simp: list_all_iff)
  have fair: "runners ?w = replicate n Committed
           \<and> backend ?w docRef = Some \<lparr> version = v0 + n, payload = c0 + int n \<rparr>"
    if f: "\<forall>i<n. 2 * maxAttempts \<le> count_list sched i"
  proof -
    have c: "runners ?w ! i = Committed" if i: "i < n" for i
    proof -
      have ig: "i < length (runners ?g)" using gate i by simp
      have "steps_left maxAttempts (runners ?g ! i) \<le> 2 * maxAttempts"
        using gate i assms(1) by simp
      moreover have "2 * maxAttempts \<le> count_list sched i" using f i by simp
      ultimately have "steps_left maxAttempts (runners ?w ! i) = 0"
        using run_steps_left[OF ig, of maxAttempts docRef sched] by simp
      moreover have "runners ?w ! i \<in> set (runners ?w)" using len i by simp
      ultimately show ?thesis using na by (cases "runners ?w ! i") auto
    qed
    have all: "runners ?w = replicate n Committed"
      using len c by (intro nth_equalityI) simp_all
    then have "committed ?w = n" by (simp add: committed_def)
    with bk all show ?thesis by simp
  qed
  from gate na bk fair show ?thesis by blast
qed

theorem concurrent_increments_commit_witness:
  "3 \<le> DEFAULT_MAX_ATTEMPTS_COUNT
   \<and> [''counters/doc'' \<mapsto> \<lparr> version = 1, payload = 5 :: int \<rparr>] ''counters/doc''
       = Some \<lparr> version = 1, payload = 5 \<rparr>
   \<and> runners (run_schedule DEFAULT_MAX_ATTEMPTS_COUNT ''counters/doc''
                 (concat (replicate 10 [0, 1, 2]))
                 (at_gate DEFAULT_MAX_ATTEMPTS_COUNT ''counters/doc'' 3
                    [''counters/doc'' \<mapsto> \<lparr> version = 1, payload = 5 \<rparr>]))
       = [Committed, Committed, Committed]
   \<and> backend (run_schedule DEFAULT_MAX_ATTEMPTS_COUNT ''counters/doc''
                 (concat (replicate 10 [0, 1, 2]))
                 (at_gate DEFAULT_MAX_ATTEMPTS_COUNT ''counters/doc'' 3
                    [''counters/doc'' \<mapsto> \<lparr> version = 1, payload = 5 \<rparr>])) ''counters/doc''
       = Some \<lparr> version = 4, payload = 8 \<rparr>"
proof -
  let ?b = "[''counters/doc'' \<mapsto> \<lparr> version = 1, payload = 5 :: int \<rparr>]"
  let ?sched = "concat (replicate 10 [0, 1, 2 :: nat])"
  have m: "3 \<le> DEFAULT_MAX_ATTEMPTS_COUNT" by (simp add: DEFAULT_MAX_ATTEMPTS_COUNT_def)
  have b: "?b ''counters/doc'' = Some \<lparr> version = 1, payload = 5 \<rparr>" by simp
  have c: "count_list ?sched 0 = 10" "count_list ?sched 1 = 10" "count_list ?sched 2 = 10"
    by code_simp+
  have f: "\<forall>i<3. 2 * DEFAULT_MAX_ATTEMPTS_COUNT \<le> count_list ?sched i"
  proof (intro allI impI)
    fix i :: nat assume "i < 3"
    then have "i = 0 \<or> i = 1 \<or> i = 2" by auto
    with c show "2 * DEFAULT_MAX_ATTEMPTS_COUNT \<le> count_list ?sched i"
      by (auto simp: DEFAULT_MAX_ATTEMPTS_COUNT_def)
  qed
  from concurrent_increments_commit [where b = ?b and docRef = "''counters/doc''" and n = 3
      and maxAttempts = DEFAULT_MAX_ATTEMPTS_COUNT and sched = ?sched, OF m b] f
  have "runners (run_schedule DEFAULT_MAX_ATTEMPTS_COUNT ''counters/doc'' ?sched
                 (at_gate DEFAULT_MAX_ATTEMPTS_COUNT ''counters/doc'' 3 ?b))
          = replicate 3 Committed"
    and "backend (run_schedule DEFAULT_MAX_ATTEMPTS_COUNT ''counters/doc'' ?sched
                 (at_gate DEFAULT_MAX_ATTEMPTS_COUNT ''counters/doc'' 3 ?b)) ''counters/doc''
          = Some \<lparr> version = 1 + 3, payload = 5 + int 3 \<rparr>"
    by blast+
  with m b show ?thesis by (simp add: numeral_3_eq_3)
qed

text \<open>
  C3. For every stream returned by \<open>openStream\<close> and every sequence of close invocations
  (the owner's \<open>close\<close>, a transport error, the end of the transport stream), only the
  first has an effect: the owner's close callback is notified once, with the terminal
  error of that invocation or none, and the transport is torn down right after; every
  later invocation is ignored. Among arbitrary inputs the trace holds one close
  notification, directly followed by the teardown, exactly when the stream is closed,
  and none otherwise; whatever the owner does inside its close callback changes nothing.
\<close>

theorem close_takes_effect_once:
  fixes cs ins :: "('req, 'resp, 'rc) stream_input list"
    and tr :: "('req, 'resp, 'c, 'x) effect list"
  assumes "returned_stream (openStream rt conn rpcName authToken appCheckToken) = Some s0"
  shows "(list_all is_close_invocation cs \<longrightarrow>
            (run_stream grpc_write mapCode cs s0 :: grpc_stream \<times> ('req, 'resp, 'c, 'x) effect list) =
              (case cs of
                 [] \<Rightarrow> (s0, [])
               | i # later \<Rightarrow>
                   (s0\<lparr>closed := True\<rparr>, [CallOnClose (terminal_error mapCode i), GrpcEnd])))
       \<and> (run_stream grpc_write mapCode ins s0 = (s, tr) \<longrightarrow>
            (if closed s
             then \<exists>pre err post. tr = pre @ [CallOnClose err, GrpcEnd] @ post
                    \<and> filter is_closing pre = [] \<and> filter is_closing post = []
             else filter is_closing tr = [])
            \<and> (\<forall>i. is_close_invocation i \<longrightarrow> closed s \<longrightarrow>
                  (handle grpc_write mapCode i s :: ('req, 'resp, 'c, 'x) outcome) = (s, [], None)))"
proof (intro conjI impI allI)
  have fresh: "\<not> closed s0" using returned_stream_fresh[OF assms] by simp
  {
    assume "list_all is_close_invocation cs"
    from run_close_invocations[OF this fresh]
    show "(run_stream grpc_write mapCode cs s0 :: grpc_stream \<times> ('req, 'resp, 'c, 'x) effect list) =
              (case cs of
                 [] \<Rightarrow> (s0, [])
               | i # later \<Rightarrow>
                   (s0\<lparr>closed := True\<rparr>, [CallOnClose (terminal_error mapCode i), GrpcEnd]))" .
  }
  {
    assume r: "run_stream grpc_write mapCode ins s0 = (s, tr)"
    from run_stream_open[OF fresh r]
    show "if closed s
             then \<exists>pre err post. tr = pre @ [CallOnClose err, GrpcEnd] @ post
                    \<and> filter is_closing pre = [] \<and> filter is_closing post = []
             else filter is_closing tr = []"
    proof
      assume "\<not> closed s \<and> list_all (\<lambda>y. \<not> is_closing y) tr"
      then show ?thesis using no_closing_filter(1) by auto
    next
      assume a: "closed s
            \<and> (\<exists>pre e post. list_all (\<lambda>y. \<not> is_closing y) pre
                  \<and> list_all (\<lambda>y. y = CallOnOpen) post
                  \<and> tr = pre @ [CallOnClose e, GrpcEnd] @ post)"
      then obtain pre e post where p: "list_all (\<lambda>y. \<not> is_closing y) pre"
          "list_all (\<lambda>y. y = CallOnOpen) post" "tr = pre @ [CallOnClose e, GrpcEnd] @ post"
        by blast
      have "filter is_closing pre = []" using p(1) by (rule no_closing_filter(1))
      moreover have "filter is_closing post = []" using p(2) by (induction post) auto
      ultimately show ?thesis using a p(3) by auto
    qed
  }
  {
    fix i :: "('req, 'resp, 'rc) stream_input"
    assume "is_close_invocation i" "closed s"
    then show "(handle grpc_write mapCode i s :: ('req, 'resp, 'c, 'x) outcome) = (s, [], None)"
      by (cases i rule: is_close_invocation.cases) simp_all
  }
qed

theorem close_takes_effect_once_witness:
  "returned_stream (openStream example_runtime example_connection ''Listen'' None None)
     = Some \<lparr> closed = False, open_timer_pending = True \<rparr>
   \<and> list_all is_close_invocation
        [GrpcError \<lparr> code = 14 :: nat, message = ''unavailable'' \<rparr> [Send 1], Owner (Close []),
         GrpcEnded [] :: (nat, nat, nat) stream_input]
   \<and> run_stream (\<lambda>msg :: nat. None :: unit option) (\<lambda>c :: nat. c)
        [GrpcError \<lparr> code = 14, message = ''unavailable'' \<rparr> [Send 1], Owner (Close []), GrpcEnded []]
        \<lparr> closed = False, open_timer_pending = True \<rparr>
     = (\<lparr> closed = True, open_timer_pending = True \<rparr>,
        [CallOnClose (Some (FirestoreError 14 ''unavailable'')), GrpcEnd :: (nat, nat, nat, unit) effect])
   \<and> run_stream (\<lambda>msg :: nat. None :: unit option) (\<lambda>c :: nat. c)
        [TimerFired [Send 7], GrpcData (1 :: nat) [Close [Send 2, Close []]], GrpcEnded [Send 3]]
        \<lparr> closed = False, open_timer_pending = True \<rparr>
     = (\<lparr> closed = True, open_timer_pending = False \<rparr>,
        [CallOnOpen, GrpcWrite 7, CallOnMessage 1, CallOnClose None,
         GrpcEnd :: (nat, nat, nat, unit) effect])
   \<and> (handle (\<lambda>msg :: nat. None :: unit option) (\<lambda>c :: nat. c)
         (GrpcError \<lparr> code = 14, message = ''unavailable'' \<rparr> [Send 4] :: (nat, nat, nat) stream_input)
         \<lparr> closed = True, open_timer_pending = False \<rparr> :: (nat, nat, nat, unit) outcome)
     = (\<lparr> closed = True, open_timer_pending = False \<rparr>, [], None)"
proof -
  let ?cs = "[GrpcError \<lparr> code = 14, message = ''unavailable'' \<rparr> [Send 1], Owner (Close []),
              GrpcEnded []] :: (nat, nat, nat) stream_input list"
  let ?ins = "[TimerFired [Send 7], GrpcData (1 :: nat) [Close [Send 2, Close []]],
               GrpcEnded [Send 3]] :: (nat, nat, nat) stream_input list"
  let ?tr = "[CallOnOpen, GrpcWrite 7, CallOnMessage 1, CallOnClose None,
              GrpcEnd] :: (nat, nat, nat, unit) effect list"
  let ?e = "GrpcError \<lparr> code = 14, message = ''unavailable'' \<rparr> [Send 4] :: (nat, nat, nat) stream_input"
  have cs: "list_all is_close_invocation ?cs" by simp
  have r: "run_stream (\<lambda>msg :: nat. None :: unit option) (\<lambda>c :: nat. c) ?ins
             \<lparr> closed = False, open_timer_pending = True \<rparr>
           = (\<lparr> closed = True, open_timer_pending = False \<rparr>, ?tr)"
    by (simp add: sendFn_def)
  have i: "is_close_invocation ?e" "closed \<lparr> closed = True, open_timer_pending = False \<rparr>"
    by simp_all
  note w = close_takes_effect_once [OF example_stream, where cs = ?cs and ins = ?ins
      and grpc_write = "\<lambda>msg :: nat. None :: unit option" and mapCode = "\<lambda>c :: nat. c"
      and s = "\<lparr> closed = True, open_timer_pending = False \<rparr>" and tr = ?tr]
  from w [THEN conjunct1, rule_format, OF cs]
  have 1: "(run_stream (\<lambda>msg :: nat. None :: unit option) (\<lambda>c :: nat. c) ?cs
          \<lparr> closed = False, open_timer_pending = True \<rparr>
            :: grpc_stream \<times> (nat, nat, nat, unit) effect list)
        = (\<lparr> closed = True, open_timer_pending = True \<rparr>,
           [CallOnClose (Some (FirestoreError 14 ''unavailable'')), GrpcEnd])"
    by (simp add: to_FirestoreError_def)
  from w [THEN conjunct2, rule_format, OF r, THEN conjunct2, rule_format, OF i]
  have 2: "(handle (\<lambda>msg :: nat. None :: unit option) (\<lambda>c :: nat. c) ?e
              \<lparr> closed = True, open_timer_pending = False \<rparr> :: (nat, nat, nat, unit) outcome)
           = (\<lparr> closed = True, open_timer_pending = False \<rparr>, [], None)" .
  from example_stream cs 1 r 2 show ?thesis by (intro conjI)
qed

text \<open>
  C4. As stated the claim fails: nothing in \<open>openStream\<close> holds a message back until the
  open callback has run. The open callback is run by a zero-delay timer, and a \<open>data\<close>
  event that the transport emits before that timer runs is delivered at once.
\<close>

theorem message_before_open_counterexample:
  "returned_stream (openStream example_runtime example_connection ''Listen'' None None)
     = Some \<lparr> closed = False, open_timer_pending = True \<rparr>
   \<and> run_stream (\<lambda>msg :: nat. None :: unit option) (\<lambda>c :: nat. c)
        [GrpcData (1 :: nat) [], TimerFired []]
        \<lparr> closed = False, open_timer_pending = True \<rparr>
     = (\<lparr> closed = False, open_timer_pending = False \<rparr>,
        [CallOnMessage 1, CallOnOpen :: (nat, nat, nat, unit) effect])"
  using example_stream by simp

text \<open>
  C4, amended. For every stream returned by \<open>openStream\<close>: if the timer runs before the
  transport's first \<open>data\<close> event, the open callback comes before every message
  callback; the close callback fires at most once, and exactly once when the stream has
  been closed; and no message callback comes after the close callback (data that arrives
  after the close is dropped).
\<close>

theorem stream_callback_order:
  fixes ins :: "('req, 'resp, 'rc) stream_input list"
    and tr :: "('req, 'resp, 'c, 'x) effect list"
  assumes "returned_stream (openStream rt conn rpcName authToken appCheckToken) = Some s0"
    and "run_stream grpc_write mapCode ins s0 = (s, tr)"
  shows "(timer_before_data ins \<longrightarrow>
            (\<forall>pre msg post. tr = pre @ CallOnMessage msg # post \<longrightarrow> CallOnOpen \<in> set pre))
       \<and> length (filter is_CallOnClose tr) = (if closed s then 1 else 0)
       \<and> (\<forall>pre err post msg. tr = pre @ CallOnClose err # post \<longrightarrow> CallOnMessage msg \<notin> set post)"
proof (intro conjI impI allI)
  have fresh: "\<not> closed s0" "open_timer_pending s0"
    using returned_stream_fresh[OF assms(1)] by simp_all
  {
    fix pre msg post
    assume tb: "timer_before_data ins" and eq: "tr = pre @ CallOnMessage msg # post"
    have "open_before_message tr" using fresh(2) tb assms(2) by (rule run_stream_open_first)
    then show "CallOnOpen \<in> set pre" using eq by (rule open_before_message_split)
  }
  have shape: "(\<not> closed s \<and> list_all (\<lambda>y. \<not> is_closing y) tr)
       \<or> (closed s
            \<and> (\<exists>pre e post. list_all (\<lambda>y. \<not> is_closing y) pre
                  \<and> list_all (\<lambda>y. y = CallOnOpen) post
                  \<and> tr = pre @ [CallOnClose e, GrpcEnd] @ post))"
    using run_stream_open[OF fresh(1) assms(2)] .
  show "length (filter is_CallOnClose tr) = (if closed s then 1 else 0)"
    using shape
  proof
    assume "\<not> closed s \<and> list_all (\<lambda>y. \<not> is_closing y) tr"
    then show ?thesis using no_closing_filter(2)[of tr] by simp
  next
    assume "closed s
            \<and> (\<exists>pre e post. list_all (\<lambda>y. \<not> is_closing y) pre
                  \<and> list_all (\<lambda>y. y = CallOnOpen) post
                  \<and> tr = pre @ [CallOnClose e, GrpcEnd] @ post)"
    then obtain pre e post where p: "closed s" "list_all (\<lambda>y. \<not> is_closing y) pre"
        "list_all (\<lambda>y. y = CallOnOpen) post" "tr = pre @ [CallOnClose e, GrpcEnd] @ post"
      by blast
    from closes_of_shape(2)[OF p(2,3), of e] p(1,4) show ?thesis by simp
  qed
  have nm: "no_message_after_close tr"
    using shape
  proof
    assume "\<not> closed s \<and> list_all (\<lambda>y. \<not> is_closing y) tr"
    then show ?thesis by (simp add: no_message_after_close_none)
  next
    assume "closed s
            \<and> (\<exists>pre e post. list_all (\<lambda>y. \<not> is_closing y) pre
                  \<and> list_all (\<lambda>y. y = CallOnOpen) post
                  \<and> tr = pre @ [CallOnClose e, GrpcEnd] @ post)"
    then obtain pre e post where p: "list_all (\<lambda>y. \<not> is_closing y) pre"
        "list_all (\<lambda>y. y = CallOnOpen) post" "tr = pre @ [CallOnClose e, GrpcEnd] @ post"
      by blast
    from no_message_after_close_shape[OF p(1,2), of e] p(3) show ?thesis by simp
  qed
  {
    fix pre err post msg
    assume "tr = pre @ CallOnClose err # post"
    with nm show "CallOnMessage msg \<notin> set post" by (rule no_message_after_close_split)
  }
qed

theorem stream_callback_order_witness:
  "returned_stream (openStream example_runtime example_connection ''Listen'' None None)
     = Some \<lparr> closed = False, open_timer_pending = True \<rparr>
   \<and> run_stream (\<lambda>msg :: nat. None :: unit option) (\<lambda>c :: nat. c)
        [TimerFired [Send 1], GrpcData (2 :: nat) [], GrpcData 3 [Close []], GrpcData 4 [], GrpcEnded []]
        \<lparr> closed = False, open_timer_pending = True \<rparr>
     = (\<lparr> closed = True, open_timer_pending = False \<rparr>,
        [CallOnOpen, GrpcWrite 1, CallOnMessage 2, CallOnMessage 3, CallOnClose None,
         GrpcEnd :: (nat, nat, nat, unit) effect])
   \<and> timer_before_data
        [TimerFired [Send 1], GrpcData (2 :: nat) [], GrpcData 3 [Close []], GrpcData 4 [],
         GrpcEnded [] :: (nat, nat, nat) stream_input]
   \<and> CallOnOpen \<in> set [CallOnOpen, GrpcWrite 1 :: (nat, nat, nat, unit) effect]
   \<and> length (filter is_CallOnClose
        [CallOnOpen, GrpcWrite 1, CallOnMessage 2, CallOnMessage 3, CallOnClose None,
         GrpcEnd :: (nat, nat, nat, unit) effect]) = 1"
proof -
  let ?ins = "[TimerFired [Send 1], GrpcData (2 :: nat) [], GrpcData 3 [Close []], GrpcData 4 [],
               GrpcEnded []] :: (nat, nat, nat) stream_input list"
  let ?tr = "[CallOnOpen, GrpcWrite 1, CallOnMessage 2, CallOnMessage 3, CallOnClose None,
              GrpcEnd] :: (nat, nat, nat, unit) effect list"
  have r: "run_stream (\<lambda>msg :: nat. None :: unit option) (\<lambda>c :: nat. c) ?ins
             \<lparr> closed = False, open_timer_pending = True \<rparr>
           = (\<lparr> closed = True, open_timer_pending = False \<rparr>, ?tr)"
    by (simp add: sendFn_def)
  have t: "timer_before_data ?ins" by simp
  have d: "?tr = [CallOnOpen, GrpcWrite 1] @ CallOnMessage 2 # [CallOnMessage 3, CallOnClose None, GrpcEnd]"
    by simp
  note w = stream_callback_order [OF example_stream r]
  from w [THEN conjunct1, rule_format, OF t d]
  have 1: "CallOnOpen \<in> set [CallOnOpen, GrpcWrite 1 :: (nat, nat, nat, unit) effect]" .
  from w [THEN conjunct2, THEN conjunct1]
  have 2: "length (filter is_CallOnClose ?tr) = 1" by simp
  from 1 2 r t example_stream show ?thesis by simp
qed

text \<open>
  C5. For every \<open>invokeStreamingRPC\<close> call with an accepted auth token: if the stream
  emits the messages \<open>m1..mk\<close> and then ends, after which it emits no further data, the
  returned promise is resolved with the list \<open>[m1..mk]\<close>, whatever else follows the end
  (a promise settles once); if the stream emits an error before it ends, the promise is
  rejected with \<open>FirestoreError(mapCodeFromRpcCode(code), message)\<close>, whatever follows,
  and the messages collected so far are not handed to the caller.
\<close>

theorem streaming_rpc_all_or_nothing:
  fixes ms :: "'resp list" and rest :: "('resp, 'rc) stream_event list"
  assumes "token_accepted authToken"
  shows "(list_all (\<lambda>ev. \<not> is_StreamData ev) rest \<longrightarrow>
            returned (invokeStreamingRPC mapCode (\<lambda>call. map StreamData ms @ StreamEnd # rest)
                        rt conn rpcName path req authToken appCheckToken)
              = Some (Resolved ms))
       \<and> returned (invokeStreamingRPC mapCode (\<lambda>call. map StreamData ms @ StreamError grpcError # rest)
                     rt conn rpcName path req authToken appCheckToken)
           = Some (Rejected (FirestoreError (mapCode (code grpcError)) (message grpcError)))"
proof (intro conjI impI)
  assume n: "list_all (\<lambda>ev. \<not> is_StreamData ev) rest"
  from invokeStreamingRPC_returned[OF assms, of mapCode "\<lambda>call. map StreamData ms @ StreamEnd # rest"
      rt conn rpcName path req appCheckToken]
  show "returned (invokeStreamingRPC mapCode (\<lambda>call. map StreamData ms @ StreamEnd # rest)
                        rt conn rpcName path req authToken appCheckToken)
              = Some (Resolved ms)"
    by (auto simp: streaming_ends[OF n])
next
  from invokeStreamingRPC_returned[OF assms, of mapCode
      "\<lambda>call. map StreamData ms @ StreamError grpcError # rest"
      rt conn rpcName path req appCheckToken]
  show "returned (invokeStreamingRPC mapCode (\<lambda>call. map StreamData ms @ StreamError grpcError # rest)
                     rt conn rpcName path req authToken appCheckToken)
           = Some (Rejected (FirestoreError (mapCode (code grpcError)) (message grpcError)))"
    by (auto simp: streaming_fails)
qed

theorem streaming_rpc_all_or_nothing_witness:
  "token_accepted None
   \<and> list_all (\<lambda>ev. \<not> is_StreamData ev)
        [StreamError \<lparr> code = 1 :: nat, message = ''cancelled'' \<rparr>, StreamEnd :: (nat, nat) stream_event]
   \<and> returned (invokeStreamingRPC (\<lambda>c :: nat. c + 100)
        (\<lambda>call. map StreamData [10, 20, 30 :: nat] @ StreamEnd #
           [StreamError \<lparr> code = 1, message = ''cancelled'' \<rparr>, StreamEnd])
        example_runtime example_connection ''BatchGetDocuments'' ''path'' Map.empty None None)
     = Some (Resolved [10, 20, 30])
   \<and> returned (invokeStreamingRPC (\<lambda>c :: nat. c + 100)
        (\<lambda>call. map StreamData [10, 20 :: nat] @ StreamError \<lparr> code = 14, message = ''unavailable'' \<rparr> #
           [StreamData 30, StreamEnd])
        example_runtime example_connection ''BatchGetDocuments'' ''path'' Map.empty None None)
     = Some (Rejected (FirestoreError 114 ''unavailable''))"
proof -
  have a: "token_accepted None" by (simp add: token_accepted_def)
  have n: "list_all (\<lambda>ev. \<not> is_StreamData ev)
        [StreamError \<lparr> code = 1 :: nat, message = ''cancelled'' \<rparr>, StreamEnd :: (nat, nat) stream_event]"
    by simp
  from streaming_rpc_all_or_nothing [OF a, of
      "[StreamError \<lparr> code = 1 :: nat, message = ''cancelled'' \<rparr>, StreamEnd]"
      "\<lambda>c :: nat. c + 100" "[10, 20, 30 :: nat]"
      example_runtime example_connection "''BatchGetDocuments''" "''path''" Map.empty None] n
  have 1: "returned (invokeStreamingRPC (\<lambda>c :: nat. c + 100)
        (\<lambda>call. map StreamData [10, 20, 30 :: nat] @ StreamEnd #
           [StreamError \<lparr> code = 1, message = ''cancelled'' \<rparr>, StreamEnd])
        example_runtime example_connection ''BatchGetDocuments'' ''path'' Map.empty None None)
     = Some (Resolved [10, 20, 30])"
    by blast
  from streaming_rpc_all_or_nothing [OF a, of
      "[StreamData 30, StreamEnd]"
      "\<lambda>c :: nat. c + 100" "[10, 20 :: nat]"
      example_runtime example_connection "''BatchGetDocuments''" "''path''" Map.empty None
      "\<lparr> code = 14, message = ''unavailable'' \<rparr>"]
  have 2: "returned (invokeStreamingRPC (\<lambda>c :: nat. c + 100)
        (\<lambda>call. map StreamData [10, 20 :: nat] @ StreamError \<lparr> code = 14, message = ''unavailable'' \<rparr> #
           [StreamData 30, StreamEnd])
        example_runtime example_connection ''BatchGetDocuments'' ''path'' Map.empty None None)
     = Some (Rejected (FirestoreError 114 ''unavailable''))"
    by simp
  from a n 1 2 show ?thesis by blast
qed

text \<open>
  C6. As stated the claim fails for the headers of the tokens: \<open>createMetadata\<close> sets
  them first, and a header set later under the same lower-cased key replaces them. An
  auth token header named \<open>x-goog-request-params\<close> does not reach the transport.
\<close>

theorem auth_header_overridden_counterexample:
  "token_accepted (Some \<lparr> type = ''OAuth'', headers = [(''x-goog-request-params'', ''spoofed'')] \<rparr>)
   \<and> (''x-goog-request-params'', ''spoofed'')
        \<in> set (headers \<lparr> type = ''OAuth'', headers = [(''x-goog-request-params'', ''spoofed'')] \<rparr>)
   \<and> (case sent_metadata
             (invokeRPC (\<lambda>c :: nat. c) (\<lambda>call. Some (None, 0 :: nat)) example_runtime
                example_connection ''Commit'' ''path'' Map.empty
                (Some \<lparr> type = ''OAuth'', headers = [(''x-goog-request-params'', ''spoofed'')] \<rparr>)
                None) of
         None \<Rightarrow> None
       | Some md \<Rightarrow> metadata_get md ''x-goog-request-params'')
     = Some ''projects/demo/databases/(default)''"
proof -
  let ?t = "\<lparr> type = ''OAuth'', headers = [(''x-goog-request-params'', ''spoofed'')] \<rparr>"
  have a: "token_accepted (Some ?t)" by (simp add: token_accepted_def)
  have p: "databasePath example_connection = ''projects/demo/databases/(default)''"
    by (simp add: example_connection_def GrpcConnection_def)
  from invokeRPC_result[OF a, of example_runtime example_connection None "\<lambda>c :: nat. c"
      "\<lambda>call. Some (None, 0 :: nat)" "''Commit''" "''path''" Map.empty]
  obtain stub md where
    md: "createMetadata example_runtime (databasePath example_connection) (Some ?t) None
           (appId (databaseInfo example_connection)) = Inr md"
    and r: "sent_metadata (invokeRPC (\<lambda>c :: nat. c) (\<lambda>call. Some (None, 0 :: nat)) example_runtime
                example_connection ''Commit'' ''path'' Map.empty (Some ?t) None) = Some md"
    by (auto simp: sent_metadata_def)
  from createMetadata_get(3)[OF md] r a p show ?thesis by simp
qed

text \<open>
  C6, amended. For every \<open>invokeRPC\<close> call with an accepted auth token, the metadata of
  the call holds the client-identification header, the database path under both of its
  keys, and the app id when there is one; under every other key it holds the value of the
  app-check token's header of that (lower-cased) key, or else of the auth token's. One
  call is issued, and the returned promise is pending until the transport calls back,
  rejected with \<open>FirestoreError(mapCodeFromRpcCode(code), message)\<close> when it calls back
  with an error, and resolved with the value otherwise.
\<close>

theorem invokeRPC_metadata_and_errors:
  assumes "token_accepted authToken"
  shows "\<exists>md call.
      sent_metadata (invokeRPC mapCode transport rt conn rpcName path req authToken appCheckToken)
        = Some md
    \<and> metadata_get md ''X-Goog-Api-Client'' = Some (X_GOOG_API_CLIENT_VALUE rt)
    \<and> metadata_get md ''Google-Cloud-Resource-Prefix'' = Some (databasePath conn)
    \<and> metadata_get md ''x-goog-request-params'' = Some (databasePath conn)
    \<and> (appId (databaseInfo conn) \<noteq> [] \<longrightarrow>
          metadata_get md ''X-Firebase-GMPID'' = Some (appId (databaseInfo conn)))
    \<and> (\<forall>key. normalizeKey key \<notin> set (later_keys (appId (databaseInfo conn))) \<longrightarrow>
          metadata_get md key =
            (case token_lookup appCheckToken key of
               Some v \<Rightarrow> Some v
             | None \<Rightarrow> token_lookup authToken key))
    \<and> issued (invokeRPC mapCode transport rt conn rpcName path req authToken appCheckToken) = [call]
    \<and> returned (invokeRPC mapCode transport rt conn rpcName path req authToken appCheckToken)
        = Some (case transport call of
                  None \<Rightarrow> Pending
                | Some (None, val) \<Rightarrow> Resolved val
                | Some (Some grpcError, val) \<Rightarrow>
                    Rejected (FirestoreError (mapCode (code grpcError)) (message grpcError)))"
proof -
  from invokeRPC_result[OF assms, of rt conn appCheckToken mapCode transport rpcName path req]
  obtain stub md where
    md: "createMetadata rt (databasePath conn) authToken appCheckToken (appId (databaseInfo conn))
           = Inr md"
    and r: "invokeRPC mapCode transport rt conn rpcName path req authToken appCheckToken =
        (snd (ensureActiveStub conn),
         Inr (UnaryCall stub rpcName (invokeRPC_jsonRequest conn req) md,
              (case transport (UnaryCall stub rpcName (invokeRPC_jsonRequest conn req) md) of
                 None \<Rightarrow> Pending
               | Some (grpcError, val) \<Rightarrow> invokeRPC_callback mapCode grpcError val)))"
    by blast
  let ?call = "UnaryCall stub rpcName (invokeRPC_jsonRequest conn req) md"
  have 1: "sent_metadata (invokeRPC mapCode transport rt conn rpcName path req authToken appCheckToken)
        = Some md"
    by (simp add: r sent_metadata_def)
  have 2: "issued (invokeRPC mapCode transport rt conn rpcName path req authToken appCheckToken)
        = [?call]"
    by (simp add: r issued_def)
  have 3: "returned (invokeRPC mapCode transport rt conn rpcName path req authToken appCheckToken)
        = Some (case transport ?call of
                  None \<Rightarrow> Pending
                | Some (None, val) \<Rightarrow> Resolved val
                | Some (Some grpcError, val) \<Rightarrow>
                    Rejected (FirestoreError (mapCode (code grpcError)) (message grpcError)))"
    by (simp add: r returned_def invokeRPC_callback_def to_FirestoreError_def
          split: option.splits prod.splits)
  show ?thesis
    using 1 2 3 createMetadata_get[OF md] by blast
qed

theorem invokeRPC_metadata_and_errors_witness:
  "token_accepted (Some \<lparr> type = ''OAuth'', headers = [(''Authorization'', ''Bearer abc'')] \<rparr>)
   \<and> (case sent_metadata
             (invokeRPC (\<lambda>c :: nat. c + 100)
                (\<lambda>call. Some (Some \<lparr> code = 14, message = ''unavailable'' \<rparr>, 0 :: nat))
                example_runtime example_connection ''Commit'' ''path'' Map.empty
                (Some \<lparr> type = ''OAuth'', headers = [(''Authorization'', ''Bearer abc'')] \<rparr>)
                (Some \<lparr> type = ''AppCheck'', headers = [(''x-firebase-appcheck'', ''tok'')] \<rparr>)) of
         None \<Rightarrow> []
       | Some md \<Rightarrow>
           [metadata_get md ''Authorization'', metadata_get md ''x-firebase-appcheck'',
            metadata_get md ''X-Firebase-GMPID'', metadata_get md ''x-goog-request-params''])
     = [Some ''Bearer abc'', Some ''tok'', Some ''1:23:web:45'',
        Some ''projects/demo/databases/(default)'']
   \<and> returned
         (invokeRPC (\<lambda>c :: nat. c + 100)
            (\<lambda>call. Some (Some \<lparr> code = 14, message = ''unavailable'' \<rparr>, 0 :: nat))
            example_runtime example_connection ''Commit'' ''path'' Map.empty
            (Some \<lparr> type = ''OAuth'', headers = [(''Authorization'', ''Bearer abc'')] \<rparr>)
            (Some \<lparr> type = ''AppCheck'', headers = [(''x-firebase-appcheck'', ''tok'')] \<rparr>))
     = Some (Rejected (FirestoreError 114 ''unavailable''))"
proof -
  let ?auth = "\<lparr> type = ''OAuth'', headers = [(''Authorization'', ''Bearer abc'')] \<rparr>"
  let ?check = "\<lparr> type = ''AppCheck'', headers = [(''x-firebase-appcheck'', ''tok'')] \<rparr>"
  have a: "token_accepted (Some ?auth)" by (simp add: token_accepted_def)
  have p: "databasePath example_connection = ''projects/demo/databases/(default)''"
      "appId (databaseInfo example_connection) = ''1:23:web:45''"
    by (simp_all add: example_connection_def GrpcConnection_def)
  have k: "normalizeKey ''Authorization'' \<notin> set (later_keys ''1:23:web:45'')"
      "normalizeKey ''x-firebase-appcheck'' \<notin> set (later_keys ''1:23:web:45'')"
    by (simp_all add: later_keys_def normalizeKey_def toLowerCase_char_def)
  have l: "token_lookup (Some ?check) ''Authorization'' = None"
      "token_lookup (Some ?auth) ''Authorization'' = Some ''Bearer abc''"
      "token_lookup (Some ?check) ''x-firebase-appcheck'' = Some ''tok''"
    by (simp_all add: token_lookup_def header_lookup_def normalizeKey_def toLowerCase_char_def)
  from invokeRPC_metadata_and_errors [OF a, of "\<lambda>c :: nat. c + 100"
      "\<lambda>call. Some (Some \<lparr> code = 14, message = ''unavailable'' \<rparr>, 0 :: nat)"
      example_runtime example_connection "''Commit''" "''path''" Map.empty "Some ?check"]
  obtain md where
    "sent_metadata (invokeRPC (\<lambda>c :: nat. c + 100)
        (\<lambda>call. Some (Some \<lparr> code = 14, message = ''unavailable'' \<rparr>, 0 :: nat))
        example_runtime example_connection ''Commit'' ''path'' Map.empty (Some ?auth) (Some ?check))
      = Some md"
    "metadata_get md ''x-goog-request-params'' = Some (databasePath example_connection)"
    "metadata_get md ''X-Firebase-GMPID'' = Some (appId (databaseInfo example_connection))"
    "metadata_get md ''Authorization'' = Some ''Bearer abc''"
    "metadata_get md ''x-firebase-appcheck'' = Some ''tok''"
    "returned (invokeRPC (\<lambda>c :: nat. c + 100)
        (\<lambda>call. Some (Some \<lparr> code = 14, message = ''unavailable'' \<rparr>, 0 :: nat))
        example_runtime example_connection ''Commit'' ''path'' Map.empty (Some ?auth) (Some ?check))
      = Some (Rejected (FirestoreError 114 ''unavailable''))"
    using k l p by fastforce
  with a p show ?thesis by simp
qed

text \<open>
  C7. For every stream returned by \<open>openStream\<close>, \<open>send\<close> on a closed stream does
  nothing: nothing is written to the transport, the state is unchanged, and nothing is
  raised, even where the transport's \<open>write\<close> would throw.
\<close>

theorem send_after_close_is_noop:
  fixes ins :: "('req, 'resp, 'rc) stream_input list"
    and tr :: "('req, 'resp, 'c, 'x) effect list"
  assumes "returned_stream (openStream rt conn rpcName authToken appCheckToken) = Some s0"
    and "run_stream grpc_write mapCode ins s0 = (s, tr)"
    and "closed s"
  shows "(sendFn grpc_write msg s :: ('req, 'resp, 'c, 'x) outcome) = (s, [], None)
       \<and> (handle grpc_write mapCode (Owner (Send msg) :: ('req, 'resp, 'rc) stream_input) s
            :: ('req, 'resp, 'c, 'x) outcome) = (s, [], None)
       \<and> run_stream grpc_write mapCode (ins @ [Owner (Send msg)]) s0 = (s, tr)"
  using assms(2,3) by (simp add: sendFn_def run_stream_append)

theorem send_after_close_is_noop_witness:
  "returned_stream (openStream example_runtime example_connection ''Write'' None None)
     = Some \<lparr> closed = False, open_timer_pending = True \<rparr>
   \<and> run_stream (\<lambda>msg :: nat. Some msg) (\<lambda>c :: nat. c)
        [TimerFired [], GrpcEnded [], Owner (Send 5)]
        \<lparr> closed = False, open_timer_pending = True \<rparr>
     = (\<lparr> closed = True, open_timer_pending = False \<rparr>,
        [CallOnOpen, CallOnClose None, GrpcEnd :: (nat, nat, nat, nat) effect])
   \<and> (sendFn (\<lambda>msg :: nat. Some msg) 5 \<lparr> closed = True, open_timer_pending = False \<rparr>
        :: (nat, nat, nat, nat) outcome)
     = (\<lparr> closed = True, open_timer_pending = False \<rparr>, [], None)"
proof -
  have s: "returned_stream (openStream example_runtime example_connection ''Write'' None None)
     = Some \<lparr> closed = False, open_timer_pending = True \<rparr>"
    by (simp add: returned_stream_def openStream_def ensureActiveStub_def example_connection_def
        GrpcConnection_def createMetadata_def hardAssert_def Let_def)
  have r: "run_stream (\<lambda>msg :: nat. Some msg) (\<lambda>c :: nat. c)
        [TimerFired [], GrpcEnded [] :: (nat, nat, nat) stream_input]
        \<lparr> closed = False, open_timer_pending = True \<rparr>
     = (\<lparr> closed = True, open_timer_pending = False \<rparr>,
        [CallOnOpen, CallOnClose None, GrpcEnd :: (nat, nat, nat, nat) effect])"
    by simp
  have c: "closed \<lparr> closed = True, open_timer_pending = False \<rparr>" by simp
  from send_after_close_is_noop [OF s r c, of 5] s show ?thesis by simp
qed

text \<open>
  C8. For every change buffer, \<open>addEntry\<close> of a document whose key was not read through
  the buffer is a programming error, and \<open>addEntry\<close> succeeds exactly when the key was
  read; a key is read by \<open>getEntry\<close> and by \<open>getEntries\<close>. \<open>addEntries\<close> of the test wrapper
  reads every key before it adds, so it never fails, and because every size delta is taken
  against the prior state that was read, the size of the cache stays in sync.
\<close>

theorem addEntry_requires_prior_read:
  fixes buf :: "('k, 'p) change_buffer" and documents :: "('k, 'p) mutable_document list"
  shows "(prior_reads buf (doc_key d) = None \<longrightarrow>
            buffer_addEntry d buf = Inl (Programming_Error ''cannot add a document that was not read''))
       \<and> (prior_reads buf (doc_key d) \<noteq> None \<longrightarrow> (\<exists>buf'. buffer_addEntry d buf = Inr buf'))
       \<and> (buffer_consistent c buf \<longrightarrow>
            (\<exists>buf'. buffer_addEntry d (snd (buffer_getEntry c (doc_key d) buf)) = Inr buf'))
       \<and> (buffer_consistent c buf \<longrightarrow> doc_key d \<in> set ks \<longrightarrow>
            (\<exists>buf'. buffer_addEntry d (snd (buffer_getEntries c ks buf)) = Inr buf'))
       \<and> (\<exists>c'. addEntries sizeOf documents c = Inr c' \<and> (in_sync sizeOf c \<longrightarrow> in_sync sizeOf c'))"
proof (intro conjI impI)
  assume "prior_reads buf (doc_key d) = None"
  then show "buffer_addEntry d buf = Inl (Programming_Error ''cannot add a document that was not read'')"
    by (simp add: buffer_addEntry_def)
next
  assume "prior_reads buf (doc_key d) \<noteq> None"
  then show "\<exists>buf'. buffer_addEntry d buf = Inr buf'"
    by (auto simp: buffer_addEntry_def)
next
  assume "buffer_consistent c buf"
  from buffer_getEntry_consistent(2)[OF this, of "doc_key d"]
  show "\<exists>buf'. buffer_addEntry d (snd (buffer_getEntry c (doc_key d) buf)) = Inr buf'"
    by (auto simp: buffer_addEntry_def)
next
  assume "buffer_consistent c buf" and "doc_key d \<in> set ks"
  with buffer_getEntries_consistent[of c buf ks]
  have "prior_reads (snd (buffer_getEntries c ks buf)) (doc_key d) \<noteq> None" by simp
  then show "\<exists>buf'. buffer_addEntry d (snd (buffer_getEntries c ks buf)) = Inr buf'"
    by (auto simp: buffer_addEntry_def)
next
  show "\<exists>c'. addEntries sizeOf documents c = Inr c' \<and> (in_sync sizeOf c \<longrightarrow> in_sync sizeOf c')"
    by (rule addEntries_succeeds)
qed

theorem addEntry_requires_prior_read_witness:
  "prior_reads (newChangeBuffer False :: (string, string) change_buffer)
       (doc_key \<lparr> doc_key = ''rooms/a'', read_time = 3, doc_state = Found, contents = Some ''abc'' \<rparr>)
     = None
   \<and> buffer_addEntry
       \<lparr> doc_key = ''rooms/a'', read_time = 3, doc_state = Found, contents = Some ''abc'' \<rparr>
       (newChangeBuffer False)
     = Inl (Programming_Error ''cannot add a document that was not read'')
   \<and> buffer_consistent
       (\<lparr> entries = Map.empty, byte_size = 0 \<rparr> :: (string, string) remote_document_cache)
       (newChangeBuffer False)
   \<and> (case buffer_addEntry
               \<lparr> doc_key = ''rooms/a'', read_time = 3, doc_state = Found, contents = Some ''abc'' \<rparr>
               (snd (buffer_getEntry \<lparr> entries = Map.empty, byte_size = 0 \<rparr> ''rooms/a''
                       (newChangeBuffer False))) of
         Inl e \<Rightarrow> False
       | Inr buf' \<Rightarrow> True)
   \<and> (case buffer_addEntry
               \<lparr> doc_key = ''rooms/a'', read_time = 3, doc_state = Found, contents = Some ''abc'' \<rparr>
               (snd (buffer_getEntries \<lparr> entries = Map.empty, byte_size = 0 \<rparr>
                       [''rooms/b'', ''rooms/a''] (newChangeBuffer False))) of
         Inl e \<Rightarrow> False
       | Inr buf' \<Rightarrow> True)
   \<and> in_sync payload_length
       (\<lparr> entries = Map.empty, byte_size = 0 \<rparr> :: (string, string) remote_document_cache)
   \<and> (case addEntries payload_length
               [\<lparr> doc_key = ''rooms/a'', read_time = 3, doc_state = Found, contents = Some ''abc'' \<rparr>,
                \<lparr> doc_key = ''rooms/b'', read_time = 4, doc_state = Found, contents = Some ''de'' \<rparr>]
               \<lparr> entries = Map.empty, byte_size = 0 \<rparr> of
         Inl e \<Rightarrow> False
       | Inr c' \<Rightarrow> in_sync payload_length c')"
proof -
  let ?d = "\<lparr> doc_key = ''rooms/a'', read_time = 3, doc_state = Found, contents = Some ''abc'' \<rparr>"
  let ?e = "\<lparr> doc_key = ''rooms/b'', read_time = 4, doc_state = Found, contents = Some ''de'' \<rparr>"
  let ?sz = "payload_length :: (string, string) mutable_document \<Rightarrow> nat"
  let ?c = "\<lparr> entries = Map.empty, byte_size = 0 \<rparr> :: (string, string) remote_document_cache"
  let ?b = "newChangeBuffer False :: (string, string) change_buffer"
  have n: "prior_reads ?b (doc_key ?d) = None"
    by (simp add: newChangeBuffer_def)
  have k: "buffer_consistent ?c ?b" by (rule newChangeBuffer_consistent)
  have m: "doc_key ?d \<in> set [''rooms/b'', ''rooms/a'']" by simp
  have s: "in_sync ?sz ?c" by (simp add: in_sync_def getSize_def)
  note w = addEntry_requires_prior_read [where buf = ?b and d = ?d
      and sizeOf = ?sz and documents = "[?d, ?e]" and c = ?c and ks = "[''rooms/b'', ''rooms/a'']"]
  from w n have 1: "buffer_addEntry ?d ?b
                      = Inl (Programming_Error ''cannot add a document that was not read'')"
    by blast
  from w k obtain b1 where "buffer_addEntry ?d (snd (buffer_getEntry ?c (doc_key ?d) ?b)) = Inr b1"
    by blast
  then have 2: "case buffer_addEntry ?d (snd (buffer_getEntry ?c ''rooms/a'' ?b)) of
                  Inl e \<Rightarrow> False | Inr buf' \<Rightarrow> True"
    by simp
  from w k m obtain b2 where
    "buffer_addEntry ?d (snd (buffer_getEntries ?c [''rooms/b'', ''rooms/a''] ?b)) = Inr b2"
    by blast
  then have 3: "case buffer_addEntry ?d (snd (buffer_getEntries ?c [''rooms/b'', ''rooms/a''] ?b)) of
                  Inl e \<Rightarrow> False | Inr buf' \<Rightarrow> True"
    by simp
  from w s obtain c' where "addEntries ?sz [?d, ?e] ?c = Inr c'" "in_sync ?sz c'"
    by blast
  then have 4: "case addEntries ?sz [?d, ?e] ?c of Inl e \<Rightarrow> False | Inr c' \<Rightarrow> in_sync ?sz c'"
    by simp
  from n 1 k 2 3 s 4 show ?thesis by (intro conjI)
qed

text \<open>
  C9. For \<open>invokeRPC\<close>, \<open>invokeStreamingRPC\<close> and \<open>openStream\<close> alike, a non-null auth
  token whose type is not \<open>OAuth\<close> fails the hard assertion of \<open>createMetadata\<close>: the
  operation raises, and it has issued no call on the stub.
\<close>

theorem non_OAuth_token_fails_before_any_request:
  assumes "type t \<noteq> ''OAuth''"
  shows "snd (invokeRPC mapCode transport rt conn rpcName path req (Some t) appCheckToken)
           = Inl (AssertionFailed ''If provided, token must be OAuth'')
       \<and> issued (invokeRPC mapCode transport rt conn rpcName path req (Some t) appCheckToken) = []
       \<and> snd (invokeStreamingRPC mapCode stream_transport rt conn rpcName path req (Some t) appCheckToken)
           = Inl (AssertionFailed ''If provided, token must be OAuth'')
       \<and> issued (invokeStreamingRPC mapCode stream_transport rt conn rpcName path req (Some t)
             appCheckToken) = []
       \<and> snd (openStream rt conn rpcName (Some t) appCheckToken)
           = Inl (AssertionFailed ''If provided, token must be OAuth'')
       \<and> issued (openStream rt conn rpcName (Some t) appCheckToken) = []"
  using assms
  by (simp add: invokeRPC_def invokeRPC_issue_def invokeStreamingRPC_def
        invokeStreamingRPC_issue_def openStream_def createMetadata_not_OAuth issued_def
        split: prod.splits)

theorem non_OAuth_token_fails_before_any_request_witness:
  "type \<lparr> type = ''FirstParty'', headers = [(''X-Goog-AuthUser'', ''0'')] \<rparr> \<noteq> ''OAuth''
   \<and> snd (invokeRPC (\<lambda>c :: nat. c) (\<lambda>call. Some (None, 0 :: nat)) example_runtime example_connection
            ''Commit'' ''path'' Map.empty
            (Some \<lparr> type = ''FirstParty'', headers = [(''X-Goog-AuthUser'', ''0'')] \<rparr>) None)
       = Inl (AssertionFailed ''If provided, token must be OAuth'')
   \<and> snd (invokeStreamingRPC (\<lambda>c :: nat. c) (\<lambda>call. [StreamData (0 :: nat), StreamEnd])
            example_runtime example_connection
            ''BatchGetDocuments'' ''path'' Map.empty
            (Some \<lparr> type = ''FirstParty'', headers = [(''X-Goog-AuthUser'', ''0'')] \<rparr>) None)
       = Inl (AssertionFailed ''If provided, token must be OAuth'')
   \<and> snd (openStream example_runtime example_connection ''Listen''
            (Some \<lparr> type = ''FirstParty'', headers = [(''X-Goog-AuthUser'', ''0'')] \<rparr>) None)
       = Inl (AssertionFailed ''If provided, token must be OAuth'')
   \<and> issued (openStream example_runtime example_connection ''Listen''
            (Some \<lparr> type = ''FirstParty'', headers = [(''X-Goog-AuthUser'', ''0'')] \<rparr>) None) = []"
proof -
  have t: "type \<lparr> type = ''FirstParty'', headers = [(''X-Goog-AuthUser'', ''0'')] \<rparr> \<noteq> ''OAuth''"
    by simp
  from non_OAuth_token_fails_before_any_request [OF t] t show ?thesis by blast
qed

text \<open>
  C10. As stated the claim fails: a request whose \<open>database\<close> field already holds the
  connection's database path is sent unchanged by both operations.
\<close>

theorem same_database_field_counterexample:
  "[''database'' \<mapsto> JString ''projects/demo/databases/(default)''] ''database'' \<noteq> None
   \<and> sent_request
        (invokeRPC (\<lambda>c :: nat. c) (\<lambda>call. Some (None, 0 :: nat)) example_runtime example_connection
           ''RunQuery'' ''path'' [''database'' \<mapsto> JString ''projects/demo/databases/(default)'']
           None None)
     = sent_request
        (invokeStreamingRPC (\<lambda>c :: nat. c) (\<lambda>call. [StreamData (0 :: nat), StreamEnd])
           example_runtime example_connection
           ''RunQuery'' ''path'' [''database'' \<mapsto> JString ''projects/demo/databases/(default)'']
           None None)
   \<and> sent_request
        (invokeRPC (\<lambda>c :: nat. c) (\<lambda>call. Some (None, 0 :: nat)) example_runtime example_connection
           ''RunQuery'' ''path'' [''database'' \<mapsto> JString ''projects/demo/databases/(default)'']
           None None)
     = Some [''database'' \<mapsto> JString ''projects/demo/databases/(default)'']"
proof -
  have a: "token_accepted None" by (simp add: token_accepted_def)
  have p: "databasePath example_connection = ''projects/demo/databases/(default)''"
    by (simp add: example_connection_def GrpcConnection_def)
  show ?thesis
    unfolding invokeRPC_sent[OF a] invokeStreamingRPC_sent[OF a]
    by (simp add: invokeRPC_jsonRequest_def invokeStreamingRPC_jsonRequest_def p)
qed

text \<open>
  C10, amended. With an accepted auth token, \<open>invokeRPC\<close> sends \<open>{database, ...request}\<close>,
  in which a \<open>database\<close> field of the caller overrides the connection's database path,
  and \<open>invokeStreamingRPC\<close> sends \<open>{...request, database}\<close>, in which the connection's
  path overrides the caller's field. The two requests differ exactly when the caller's
  request has a \<open>database\<close> field whose value is not the connection's database path.
\<close>

theorem database_field_precedence:
  assumes "token_accepted authToken"
  shows "sent_request (invokeRPC mapCode transport rt conn rpcName path req authToken appCheckToken)
           = Some ([''database'' \<mapsto> JString (databasePath conn)] ++ req)
       \<and> sent_request (invokeStreamingRPC mapCode' transport' rt conn rpcName path req authToken
             appCheckToken)
           = Some (req(''database'' \<mapsto> JString (databasePath conn)))
       \<and> ([''database'' \<mapsto> JString (databasePath conn)] ++ req) ''database''
           = Some (case req ''database'' of Some v \<Rightarrow> v | None \<Rightarrow> JString (databasePath conn))
       \<and> (req(''database'' \<mapsto> JString (databasePath conn))) ''database''
           = Some (JString (databasePath conn))
       \<and> (sent_request (invokeRPC mapCode transport rt conn rpcName path req authToken appCheckToken)
            \<noteq> sent_request (invokeStreamingRPC mapCode' transport' rt conn rpcName path req authToken
                  appCheckToken)
          \<longleftrightarrow> (\<exists>v. req ''database'' = Some v \<and> v \<noteq> JString (databasePath conn)))"
proof -
  have 1: "sent_request (invokeRPC mapCode transport rt conn rpcName path req authToken appCheckToken)
           = Some ([''database'' \<mapsto> JString (databasePath conn)] ++ req)"
    using invokeRPC_sent[OF assms] by (simp add: invokeRPC_jsonRequest_def)
  have 2: "sent_request (invokeStreamingRPC mapCode' transport' rt conn rpcName path req authToken
             appCheckToken)
           = Some (req(''database'' \<mapsto> JString (databasePath conn)))"
    using invokeStreamingRPC_sent[OF assms] by (simp add: invokeStreamingRPC_jsonRequest_def)
  have 3: "([''database'' \<mapsto> JString (databasePath conn)] ++ req) ''database''
           = Some (case req ''database'' of Some v \<Rightarrow> v | None \<Rightarrow> JString (databasePath conn))"
    by (simp add: map_add_def split: option.splits)
  have 4: "(req(''database'' \<mapsto> JString (databasePath conn))) ''database''
           = Some (JString (databasePath conn))"
    by simp
  have 5: "([''database'' \<mapsto> JString (databasePath conn)] ++ req
             \<noteq> req(''database'' \<mapsto> JString (databasePath conn)))
          \<longleftrightarrow> (\<exists>v. req ''database'' = Some v \<and> v \<noteq> JString (databasePath conn))"
    using jsonRequests_differ_iff[of conn req]
    by (simp add: invokeRPC_jsonRequest_def invokeStreamingRPC_jsonRequest_def)
  show ?thesis unfolding 1 2 using 3 4 5 by simp
qed

theorem database_field_precedence_witness:
  "token_accepted None
   \<and> sent_request
        (invokeRPC (\<lambda>c :: nat. c) (\<lambda>call. Some (None, 0 :: nat)) example_runtime example_connection
           ''RunQuery'' ''path'' [''database'' \<mapsto> JString ''other''] None None)
     \<noteq> sent_request
        (invokeStreamingRPC (\<lambda>c :: nat. c) (\<lambda>call. [StreamData (0 :: nat), StreamEnd])
           example_runtime example_connection
           ''RunQuery'' ''path'' [''database'' \<mapsto> JString ''other''] None None)"
proof -
  have a: "token_accepted None" by (simp add: token_accepted_def)
  have p: "databasePath example_connection = ''projects/demo/databases/(default)''"
    by (simp add: example_connection_def GrpcConnection_def)
  have "\<exists>v. [''database'' \<mapsto> JString ''other''] ''database'' = Some v
          \<and> v \<noteq> JString (databasePath example_connection)"
    by (simp add: p)
  with database_field_precedence [OF a, of "\<lambda>c :: nat. c" "\<lambda>call. Some (None, 0 :: nat)"
      example_runtime example_connection "''RunQuery''" "''path''"
      "[''database'' \<mapsto> JString ''other'']" None
      "\<lambda>c :: nat. c" "\<lambda>call. [StreamData (0 :: nat), StreamEnd]"] a
  show ?thesis by blast
qed

end
